theory Spec2Isabelle
  imports Complex_Main "HOL-Library.Signed_Division"
begin

chapter \<open>The trade-stream processor: model\<close>

section \<open>Machine integers\<close>

text \<open>
  The ring indices of the ingress queue and of the sliding window are \<open>uint32_t\<close>.
  They are modelled as natural numbers, with the wrap-around of every increment
  written out by \<open>u32\<close>. The indices of the VWAP history, the lag offsets and the
  timestamps are signed (\<open>int\<close>, \<open>int64_t\<close>); they are modelled as integers, and the
  remainder operator of C, which truncates towards zero, is \<open>smod\<close>.
\<close>

definition u32 :: "nat \<Rightarrow> nat" where
  "u32 n = n mod 2 ^ 32"

section \<open>Doubles\<close>

text \<open>
  The prices, sizes, running sums and correlations are C \<open>double\<close>s: IEEE 754
  binary64 with round-to-nearest, ties-to-even, every operation rounded on its own.
  A finite double is \<open>Fin m e\<close>, the number \<open>m * 2 ^ e\<close>; the operations deliver
  it in the format's own encoding, \<open>\<bar>m\<bar> < 2 ^ 53\<close> and \<open>- 1074 \<le> e \<le> 971\<close>, with
  \<open>2 ^ 52 \<le> \<bar>m\<bar>\<close> unless \<open>e = - 1074\<close> (subnormals and zero). The sign of zero is not
  kept: the program never divides by a zero and never prints a sign of zero that the
  properties below read. \<open>NaN\<close> is the one not-a-number.
\<close>

datatype double = Fin int int | PInf | NInf | NaN

text \<open>Number of binary digits of a positive integer.\<close>

function nbits :: "int \<Rightarrow> int" where
  "nbits k = (if k \<le> 0 then 0 else 1 + nbits (k div 2))"
  by pat_completeness auto
termination
  by (relation "measure nat") auto

declare nbits.simps [simp del]

text \<open>
  Rounding of the exact value \<open>m * 2 ^ e\<close> to the nearest double. \<open>sticky\<close> tells
  that the exact value lies strictly above \<open>\<bar>m\<bar> * 2 ^ e\<close> in magnitude, by less than
  one unit of \<open>2 ^ e\<close> (the remainder of a division or of a square root).
  \<open>round_dy\<close> finds the exponent of the result; \<open>round_at\<close> keeps an exactly
  representable value or shifts the surplus digits out; \<open>round_pick\<close> rounds to
  nearest, ties to even; \<open>round_carry\<close> renormalises a mantissa that rounded up to
  \<open>2 ^ 53\<close>; \<open>pack\<close> overflows to infinity.
\<close>

definition pack :: "int \<Rightarrow> int \<Rightarrow> int \<Rightarrow> double" where
  "pack s q e = (if 971 < e then (if 0 < s then PInf else NInf)
                 else Fin (s * q) (if q = 0 then - 1074 else e))"

definition round_carry :: "int \<Rightarrow> int \<Rightarrow> int \<Rightarrow> double" where
  "round_carry s q e = (if q = 2 ^ 53 then pack s (2 ^ 52) (e + 1) else pack s q e)"

definition round_pick :: "bool \<Rightarrow> int \<Rightarrow> int \<Rightarrow> int \<Rightarrow> int \<Rightarrow> int \<Rightarrow> double" where
  "round_pick sticky s q r half e =
     round_carry s (if half < r \<or> (r = half \<and> (sticky \<or> odd q)) then q + 1 else q) e"

definition round_shift :: "bool \<Rightarrow> int \<Rightarrow> int \<Rightarrow> nat \<Rightarrow> int \<Rightarrow> double" where
  "round_shift sticky s a sh e =
     round_pick sticky s (a div 2 ^ sh) (a mod 2 ^ sh) (2 ^ (sh - 1)) e"

definition round_at :: "bool \<Rightarrow> int \<Rightarrow> int \<Rightarrow> int \<Rightarrow> double" where
  "round_at sticky m e e' =
     (if e' \<le> e then pack (sgn m) (abs m * 2 ^ nat (e - e')) e'
      else round_shift sticky (sgn m) (abs m) (nat (e' - e)) e')"

definition round_dy :: "bool \<Rightarrow> int \<Rightarrow> int \<Rightarrow> double" where
  "round_dy sticky m e =
     (if m = 0 then Fin 0 (- 1074)
      else round_at sticky m e (max (e + nbits (abs m) - 53) (- 1074)))"

text \<open>Conversion of an \<open>int\<close> (the loop bound \<open>n\<close> in \<open>n * sum_xy\<close>).\<close>

definition d_of_int :: "int \<Rightarrow> double" where
  "d_of_int n = round_dy False n 0"

text \<open>Addition, negation, subtraction.\<close>

definition add_aligned :: "int \<Rightarrow> int \<Rightarrow> int \<Rightarrow> int \<Rightarrow> int \<Rightarrow> double" where
  "add_aligned m1 e1 m2 e2 e = round_dy False (m1 * 2 ^ nat (e1 - e) + m2 * 2 ^ nat (e2 - e)) e"

fun dadd :: "double \<Rightarrow> double \<Rightarrow> double" where
  "dadd (Fin m1 e1) (Fin m2 e2) =
     (if m1 = 0 \<and> m2 = 0 then Fin 0 (- 1074)
      else if m1 = 0 then Fin m2 e2
      else if m2 = 0 then Fin m1 e1
      else add_aligned m1 e1 m2 e2 (min e1 e2))"
| "dadd NaN _ = NaN"
| "dadd _ NaN = NaN"
| "dadd PInf NInf = NaN"
| "dadd NInf PInf = NaN"
| "dadd PInf _ = PInf"
| "dadd NInf _ = NInf"
| "dadd _ PInf = PInf"
| "dadd _ NInf = NInf"

fun dneg :: "double \<Rightarrow> double" where
  "dneg (Fin m e) = Fin (- m) e"
| "dneg PInf = NInf"
| "dneg NInf = PInf"
| "dneg NaN = NaN"

definition dsub :: "double \<Rightarrow> double \<Rightarrow> double" where
  "dsub a b = dadd a (dneg b)"

text \<open>Multiplication.\<close>

fun dmul :: "double \<Rightarrow> double \<Rightarrow> double" where
  "dmul (Fin m1 e1) (Fin m2 e2) = round_dy False (m1 * m2) (e1 + e2)"
| "dmul NaN _ = NaN"
| "dmul _ NaN = NaN"
| "dmul (Fin a _) PInf = (if a = 0 then NaN else if 0 < a then PInf else NInf)"
| "dmul (Fin a _) NInf = (if a = 0 then NaN else if 0 < a then NInf else PInf)"
| "dmul PInf (Fin b _) = (if b = 0 then NaN else if 0 < b then PInf else NInf)"
| "dmul NInf (Fin b _) = (if b = 0 then NaN else if 0 < b then NInf else PInf)"
| "dmul PInf PInf = PInf"
| "dmul PInf NInf = NInf"
| "dmul NInf PInf = NInf"
| "dmul NInf NInf = PInf"

text \<open>
  Division: the quotient of the mantissas is taken with at least 55 binary digits,
  and the remainder sets the sticky flag.
\<close>

definition div_scaled :: "int \<Rightarrow> int \<Rightarrow> int \<Rightarrow> int \<Rightarrow> double" where
  "div_scaled s n d e = round_dy (n mod d \<noteq> 0) (s * (n div d)) e"

definition div_fin :: "int \<Rightarrow> int \<Rightarrow> int \<Rightarrow> int \<Rightarrow> nat \<Rightarrow> double" where
  "div_fin m1 e1 m2 e2 j =
     div_scaled (sgn m1 * sgn m2) (abs m1 * 2 ^ j) (abs m2) (e1 - e2 - int j)"

fun ddiv :: "double \<Rightarrow> double \<Rightarrow> double" where
  "ddiv (Fin m1 e1) (Fin m2 e2) =
     (if m2 = 0 then (if m1 = 0 then NaN else if 0 < m1 then PInf else NInf)
      else if m1 = 0 then Fin 0 (- 1074)
      else div_fin m1 e1 m2 e2 (nat (max 0 (55 + nbits (abs m2) - nbits (abs m1)))))"
| "ddiv NaN _ = NaN"
| "ddiv _ NaN = NaN"
| "ddiv (Fin _ _) PInf = Fin 0 (- 1074)"
| "ddiv (Fin _ _) NInf = Fin 0 (- 1074)"
| "ddiv PInf (Fin b _) = (if 0 \<le> b then PInf else NInf)"
| "ddiv NInf (Fin b _) = (if 0 \<le> b then NInf else PInf)"
| "ddiv PInf PInf = NaN"
| "ddiv PInf NInf = NaN"
| "ddiv NInf PInf = NaN"
| "ddiv NInf NInf = NaN"

text \<open>
  Square root: the integer square root of the mantissa, scaled to an even exponent
  and to at least 55 binary digits of root; an inexact root sets the sticky flag.
\<close>

definition isqrt_step :: "int \<Rightarrow> int \<Rightarrow> int" where
  "isqrt_step n r = (if (r + 1) * (r + 1) \<le> n then r + 1 else r)"

function isqrt :: "int \<Rightarrow> int" where
  "isqrt n = (if n < 2 then n else isqrt_step n (2 * isqrt (n div 4)))"
  by pat_completeness auto
termination
  by (relation "measure nat") auto

declare isqrt.simps [simp del]

definition sqrt_root :: "int \<Rightarrow> int \<Rightarrow> int \<Rightarrow> double" where
  "sqrt_root n s e = round_dy (s * s \<noteq> n) s e"

definition sqrt_scaled :: "int \<Rightarrow> int \<Rightarrow> int \<Rightarrow> double" where
  "sqrt_scaled m e j = sqrt_root (m * 2 ^ nat j) (isqrt (m * 2 ^ nat j)) ((e - j) div 2)"

definition sqrt_fin :: "int \<Rightarrow> int \<Rightarrow> int \<Rightarrow> double" where
  "sqrt_fin m e j0 = sqrt_scaled m e (if even (e - j0) then j0 else j0 + 1)"

fun dsqrt :: "double \<Rightarrow> double" where
  "dsqrt (Fin m e) =
     (if m < 0 then NaN else if m = 0 then Fin 0 (- 1074)
      else sqrt_fin m e (max 0 (110 - nbits m)))"
| "dsqrt PInf = PInf"
| "dsqrt NInf = NaN"
| "dsqrt NaN = NaN"

text \<open>
  Comparisons, as the operators \<open><\<close> and \<open>==\<close> of C: false as soon as an operand is
  not a number. \<open>isnan\<close> and \<open>fabs\<close> are those of \<open>math.h\<close>.
\<close>

definition less_aligned :: "int \<Rightarrow> int \<Rightarrow> int \<Rightarrow> int \<Rightarrow> int \<Rightarrow> bool" where
  "less_aligned m1 e1 m2 e2 e \<longleftrightarrow> m1 * 2 ^ nat (e1 - e) < m2 * 2 ^ nat (e2 - e)"

definition eq_aligned :: "int \<Rightarrow> int \<Rightarrow> int \<Rightarrow> int \<Rightarrow> int \<Rightarrow> bool" where
  "eq_aligned m1 e1 m2 e2 e \<longleftrightarrow> m1 * 2 ^ nat (e1 - e) = m2 * 2 ^ nat (e2 - e)"

fun dless :: "double \<Rightarrow> double \<Rightarrow> bool" where
  "dless (Fin m1 e1) (Fin m2 e2) =
     (if m1 = 0 then 0 < m2 else if m2 = 0 then m1 < 0
      else less_aligned m1 e1 m2 e2 (min e1 e2))"
| "dless NaN _ = False"
| "dless _ NaN = False"
| "dless PInf _ = False"
| "dless _ NInf = False"
| "dless NInf _ = True"
| "dless _ PInf = True"

fun deq :: "double \<Rightarrow> double \<Rightarrow> bool" where
  "deq (Fin m1 e1) (Fin m2 e2) =
     (if m1 = 0 \<or> m2 = 0 then m1 = m2 else eq_aligned m1 e1 m2 e2 (min e1 e2))"
| "deq PInf PInf = True"
| "deq NInf NInf = True"
| "deq _ _ = False"

fun isnan :: "double \<Rightarrow> bool" where
  "isnan NaN = True"
| "isnan _ = False"

fun fabs :: "double \<Rightarrow> double" where
  "fabs (Fin m e) = Fin (abs m) e"
| "fabs NInf = PInf"
| "fabs PInf = PInf"
| "fabs NaN = NaN"

text \<open>The operators of C on doubles, so that the arithmetic below reads as the source does.\<close>

instantiation double :: "{zero, plus, minus, uminus, times, inverse, ord}"
begin

definition zero_double :: double where
  "zero_double = Fin 0 (- 1074)"

definition plus_double :: "double \<Rightarrow> double \<Rightarrow> double" where
  "plus_double a b = dadd a b"

definition minus_double :: "double \<Rightarrow> double \<Rightarrow> double" where
  "minus_double a b = dsub a b"

definition uminus_double :: "double \<Rightarrow> double" where
  "uminus_double a = dneg a"

definition times_double :: "double \<Rightarrow> double \<Rightarrow> double" where
  "times_double a b = dmul a b"

definition divide_double :: "double \<Rightarrow> double \<Rightarrow> double" where
  "divide_double a b = ddiv a b"

definition inverse_double :: "double \<Rightarrow> double" where
  "inverse_double a = ddiv (d_of_int 1) a"

definition less_double :: "double \<Rightarrow> double \<Rightarrow> bool" where
  "less_double a b = dless a b"

definition less_eq_double :: "double \<Rightarrow> double \<Rightarrow> bool" where
  "less_eq_double a b \<longleftrightarrow> dless a b \<or> deq a b"

instance ..

end

text \<open>The real number a finite double stands for (used in proofs about the order).\<close>

definition dval :: "double \<Rightarrow> real" where
  "dval d = (case d of Fin m e \<Rightarrow> of_int m * 2 powi e | _ \<Rightarrow> 0)"

section \<open>Ring buffers\<close>

text \<open>
  The three rings of the program (ingress queue, sliding window, VWAP history) are
  arrays read circularly from a head index. \<open>ring_list buf c h n\<close> is the list of
  the \<open>n\<close> slots of \<open>buf\<close> met from index \<open>h\<close> on, modulo the capacity \<open>c\<close>.
\<close>

definition ring_list :: "'a list \<Rightarrow> nat \<Rightarrow> nat \<Rightarrow> nat \<Rightarrow> 'a list" where
  "ring_list buf c h n = map (\<lambda>k. buf ! ((h + k) mod c)) [0..<n]"

section \<open>The ingress ring (queue.c)\<close>

text \<open>
  \<open>raw_trade_message\<close> of common.h. The prices and sizes play no part in the queue,
  which copies whole messages; they are kept abstract in the type parameter of the
  record so that the queue can be stated before the arithmetic of doubles.
\<close>

record 'd raw_trade_message =
  symbol_index :: int
  exchange_ts_ms :: int
  msg_price :: 'd
  msg_size :: 'd
  raw_json :: string
  receive_ts_ms :: int

record 'd raw_trade_queue =
  q_buffer :: "'d raw_trade_message list"
  q_capacity :: nat
  q_head_idx :: nat
  q_tail_idx :: nat

text \<open>
  \<open>raw_queue_init\<close>: the buffer comes from \<open>calloc\<close>, so every slot holds the
  all-zero message \<open>z\<close>. (When the allocation fails the program exits; the model is
  of the call that returns.)
\<close>

definition raw_queue_init :: "'d raw_trade_message \<Rightarrow> nat \<Rightarrow> 'd raw_trade_queue" where
  "raw_queue_init z capacity =
     \<lparr>q_buffer = replicate capacity z, q_capacity = capacity, q_head_idx = 0, q_tail_idx = 0\<rparr>"

text \<open>
  The loop of \<open>raw_queue_push\<close> that drops the oldest message while the ring is
  full. The value \<open>None\<close> stands for a call that does not return: the loop spins for
  ever (capacity 1), or the remainder by a zero capacity traps.
\<close>

partial_function (option) drop_oldest :: "'d raw_trade_queue \<Rightarrow> 'd raw_trade_queue option" where
  "drop_oldest q =
     (if q_capacity q = 0 then None
      else if u32 (q_tail_idx q + 1) mod q_capacity q = q_head_idx q
      then drop_oldest (q\<lparr>q_head_idx := u32 (q_head_idx q + 1) mod q_capacity q\<rparr>)
      else Some q)"

definition raw_queue_push ::
  "'d raw_trade_queue \<Rightarrow> 'd raw_trade_message \<Rightarrow> 'd raw_trade_queue option" where
  "raw_queue_push queue msg_in =
     (case drop_oldest queue of
        None \<Rightarrow> None
      | Some q \<Rightarrow>
          Some (q\<lparr>q_buffer := (q_buffer q)[q_tail_idx q := msg_in],
                  q_tail_idx := u32 (q_tail_idx q + 1) mod q_capacity q\<rparr>))"

text \<open>
  \<open>raw_queue_pop\<close> under the lock, as one step of the consumer: on an empty ring it
  returns 0 when shutdown was requested and waits on the condition variable
  otherwise; on a non-empty ring it hands out the head message.
\<close>

datatype 'd pop_result =
    Popped "'d raw_trade_message" "'d raw_trade_queue"
  | Shutdown_Empty
  | Waits

definition raw_queue_pop :: "bool \<Rightarrow> 'd raw_trade_queue \<Rightarrow> 'd pop_result" where
  "raw_queue_pop shutdown_requested queue =
     (if q_head_idx queue = q_tail_idx queue
      then (if shutdown_requested then Shutdown_Empty else Waits)
      else Popped (q_buffer queue ! q_head_idx queue)
             (queue\<lparr>q_head_idx := u32 (q_head_idx queue + 1) mod q_capacity queue\<rparr>))"

fun push_all :: "'d raw_trade_queue \<Rightarrow> 'd raw_trade_message list \<Rightarrow> 'd raw_trade_queue option" where
  "push_all q [] = Some q"
| "push_all q (m # ms) =
     (case raw_queue_push q m of None \<Rightarrow> None | Some q' \<Rightarrow> push_all q' ms)"

text \<open>
  What the ring holds, oldest first: \<open>(tail - head) mod capacity\<close> messages, read
  from the head. A ring is well formed when it has at least two slots (one is kept
  free to tell a full ring from an empty one) and both indices are inside it.
\<close>

definition queue_size :: "'d raw_trade_queue \<Rightarrow> nat" where
  "queue_size q = (q_tail_idx q + q_capacity q - q_head_idx q) mod q_capacity q"

definition queue_contents :: "'d raw_trade_queue \<Rightarrow> 'd raw_trade_message list" where
  "queue_contents q = ring_list (q_buffer q) (q_capacity q) (q_head_idx q) (queue_size q)"

definition queue_ok :: "'d raw_trade_queue \<Rightarrow> bool" where
  "queue_ok q \<longleftrightarrow>
     q_capacity q = length (q_buffer q) \<and> 2 \<le> q_capacity q \<and> q_capacity q < 2 ^ 32 \<and>
     q_head_idx q < q_capacity q \<and> q_tail_idx q < q_capacity q"

text \<open>Message number \<open>k\<close> of a test scenario: the zeroed message \<open>z\<close>, stamped \<open>k\<close>.\<close>

definition numbered :: "'d raw_trade_message \<Rightarrow> int \<Rightarrow> 'd raw_trade_message" where
  "numbered z k = z\<lparr>receive_ts_ms := k\<rparr>"

definition zero_unit_message :: "unit raw_trade_message" where
  "zero_unit_message = \<lparr>symbol_index = 0, exchange_ts_ms = 0, msg_price = (), msg_size = (),
     raw_json = [], receive_ts_ms = 0\<rparr>"

section \<open>The scheduler's minute alignment (scheduler.c)\<close>

text \<open>
  The two lines of \<open>scheduler_thread_fn\<close> that choose the first tick from the
  monotonic clock reading \<open>now_ns\<close>. The division of C truncates towards zero
  (\<open>sdiv\<close>); the clock reading is an \<open>int64_t\<close>, far from overflow for every value a
  monotonic clock delivers, so it is modelled as an integer.
\<close>

definition NS_PER_MS :: int where
  "NS_PER_MS = 1000000"

definition PERIOD_NS :: int where
  "PERIOD_NS = 60000 * NS_PER_MS"

definition initial_scheduled_time_ns :: "int \<Rightarrow> int" where
  "initial_scheduled_time_ns now_ns = ((now_ns sdiv PERIOD_NS) + 1) * PERIOD_NS"

text \<open>
  The two readings of "the next multiple of the period": \<open>least_multiple_from p t s\<close>
  says that \<open>s\<close> is the smallest multiple of \<open>p\<close> not less than \<open>t\<close> (the wording of
  the specification), \<open>least_multiple_after p t s\<close> that it is the smallest multiple
  strictly greater than \<open>t\<close>.
\<close>

definition least_multiple_from :: "int \<Rightarrow> int \<Rightarrow> int \<Rightarrow> bool" where
  "least_multiple_from p t s \<longleftrightarrow> p dvd s \<and> t \<le> s \<and> (\<forall>m. p dvd m \<and> t \<le> m \<longrightarrow> s \<le> m)"

definition least_multiple_after :: "int \<Rightarrow> int \<Rightarrow> int \<Rightarrow> bool" where
  "least_multiple_after p t s \<longleftrightarrow> p dvd s \<and> t < s \<and> (\<forall>m. p dvd m \<and> t < m \<longrightarrow> s \<le> m)"

section \<open>The sliding window (sliding_window.c)\<close>

text \<open>
  \<open>processed_trade\<close> and \<open>sliding_window\<close> of common.h. The number type of prices,
  sizes and sums is a parameter: it is \<open>double\<close> in the program, and the same
  definitions read over the real numbers give the window in exact arithmetic. The
  timestamps are \<open>int64_t\<close> milliseconds; \<open>ts_ms - WINDOW_MS\<close> is exact for every
  timestamp from \<open>- 2 ^ 63 + WINDOW_MS\<close> on, in particular for the positive ones the
  parser hands over, so they are integers here.
\<close>

record 'a processed_trade =
  trade_ts_ms :: int
  price :: 'a
  size_pt :: 'a

record 'a sliding_window =
  sw_buffer :: "'a processed_trade list"
  sw_capacity :: nat
  sw_head_idx :: nat
  sw_tail_idx :: nat
  sw_size :: nat
  sum_price_volume :: 'a
  sum_volume :: 'a

definition WINDOW_MINUTES :: int where
  "WINDOW_MINUTES = 15"

definition WINDOW_MS :: int where
  "WINDOW_MS = WINDOW_MINUTES * 60 * 1000"

definition WINDOW_CAPACITY :: nat where
  "WINDOW_CAPACITY = 50000"

definition sliding_window_init :: "'a::zero sliding_window" where
  "sliding_window_init =
     \<lparr>sw_buffer = replicate WINDOW_CAPACITY \<lparr>trade_ts_ms = 0, price = 0, size_pt = 0\<rparr>,
      sw_capacity = WINDOW_CAPACITY, sw_head_idx = 0, sw_tail_idx = 0, sw_size = 0,
      sum_price_volume = 0, sum_volume = 0\<rparr>"

text \<open>
  The body shared by the pruning loop and the overflow branch: take the head entry
  out of the sums and advance the head. \<open>size--\<close> is written with its wrap-around.
\<close>

definition evict_head :: "'a::{minus,times} sliding_window \<Rightarrow> 'a sliding_window" where
  "evict_head w =
     w\<lparr>sum_price_volume :=
         sum_price_volume w - price (sw_buffer w ! sw_head_idx w) * size_pt (sw_buffer w ! sw_head_idx w),
       sum_volume := sum_volume w - size_pt (sw_buffer w ! sw_head_idx w),
       sw_head_idx := u32 (sw_head_idx w + 1) mod sw_capacity w,
       sw_size := u32 (sw_size w + (2 ^ 32 - 1))\<rparr>"

function prune_expired :: "int \<Rightarrow> 'a::{minus,times} sliding_window \<Rightarrow> 'a sliding_window" where
  "prune_expired expiry_cutoff_ms w =
     (if 0 < sw_size w \<and> trade_ts_ms (sw_buffer w ! sw_head_idx w) < expiry_cutoff_ms
      then prune_expired expiry_cutoff_ms (evict_head w)
      else w)"
  by pat_completeness auto
termination
proof (relation "measure (\<lambda>(c, w). sw_size w)")
  show "wf (measure (\<lambda>(c, w :: 'a sliding_window). sw_size w))" by simp
next
  fix expiry_cutoff_ms :: int and w :: "'a sliding_window"
  assume a: "0 < sw_size w \<and> trade_ts_ms (sw_buffer w ! sw_head_idx w) < expiry_cutoff_ms"
  have "(sw_size w + (2 ^ 32 - 1)) mod 2 ^ 32 < sw_size w"
  proof (cases "sw_size w < 2 ^ 32")
    case True
    have "sw_size w + (2 ^ 32 - 1) = (sw_size w - 1) + 2 ^ 32" using a by simp
    then have "(sw_size w + (2 ^ 32 - 1)) mod 2 ^ 32 = (sw_size w - 1) mod 2 ^ 32"
      by (simp only: mod_add_self2)
    also have "\<dots> = sw_size w - 1" using True by (intro mod_less) linarith
    finally show ?thesis using a by linarith
  next
    case False
    have "(sw_size w + (2 ^ 32 - 1)) mod 2 ^ 32 < (2 ^ 32 :: nat)" by simp
    with False show ?thesis by linarith
  qed
  then show "((expiry_cutoff_ms, evict_head w), (expiry_cutoff_ms, w)) \<in> measure (\<lambda>(c, w). sw_size w)"
    by (simp add: evict_head_def u32_def)
qed

declare prune_expired.simps [simp del]

definition append_trade ::
  "'a::{plus,times} sliding_window \<Rightarrow> int \<Rightarrow> 'a \<Rightarrow> 'a \<Rightarrow> 'a sliding_window" where
  "append_trade w ts_ms p s =
     w\<lparr>sw_buffer := (sw_buffer w)[sw_tail_idx w := \<lparr>trade_ts_ms = ts_ms, price = p, size_pt = s\<rparr>],
       sw_tail_idx := u32 (sw_tail_idx w + 1) mod sw_capacity w,
       sw_size := u32 (sw_size w + 1),
       sum_price_volume := sum_price_volume w + p * s,
       sum_volume := sum_volume w + s\<rparr>"

definition evict_if_full :: "'a::{minus,times} sliding_window \<Rightarrow> 'a sliding_window" where
  "evict_if_full w = (if sw_size w = sw_capacity w then evict_head w else w)"

definition sliding_window_add_trade ::
  "'a::{plus,minus,times} sliding_window \<Rightarrow> int \<Rightarrow> 'a \<Rightarrow> 'a \<Rightarrow> 'a sliding_window" where
  "sliding_window_add_trade w ts_ms p s =
     append_trade (evict_if_full (prune_expired (ts_ms - WINDOW_MS) w)) ts_ms p s"

definition sliding_window_snapshot_vwap :: "double sliding_window \<Rightarrow> double" where
  "sliding_window_snapshot_vwap w =
     (if 0 < sum_volume w then sum_price_volume w / sum_volume w else NaN)"

text \<open>A sequence of calls, each \<open>(ts_ms, price, size)\<close>.\<close>

fun add_trades :: "'a::{plus,minus,times} sliding_window \<Rightarrow> (int \<times> 'a \<times> 'a) list \<Rightarrow> 'a sliding_window" where
  "add_trades w [] = w"
| "add_trades w ((ts_ms, p, s) # rest) = add_trades (sliding_window_add_trade w ts_ms p s) rest"

text \<open>
  The live entries, oldest first; the well-formedness of the ring; the window
  property of the specification (no live entry is more than \<open>WINDOW_MS\<close> older than
  the newest one); chronological order; and the naive recomputation of the sums.
\<close>

definition live :: "'a sliding_window \<Rightarrow> 'a processed_trade list" where
  "live w = ring_list (sw_buffer w) (sw_capacity w) (sw_head_idx w) (sw_size w)"

definition window_ok :: "'a sliding_window \<Rightarrow> bool" where
  "window_ok w \<longleftrightarrow>
     sw_capacity w = length (sw_buffer w) \<and> 0 < sw_capacity w \<and> sw_capacity w < 2 ^ 32 \<and>
     sw_head_idx w < sw_capacity w \<and> sw_size w \<le> sw_capacity w \<and>
     sw_tail_idx w = (sw_head_idx w + sw_size w) mod sw_capacity w"

definition within_window :: "'a sliding_window \<Rightarrow> bool" where
  "within_window w \<longleftrightarrow>
     (\<forall>t \<in> set (live w). trade_ts_ms (last (live w)) - WINDOW_MS \<le> trade_ts_ms t)"

definition chronological :: "'a sliding_window \<Rightarrow> bool" where
  "chronological w \<longleftrightarrow> sorted (map trade_ts_ms (live w))"

definition naive_sum_pv :: "'a::{zero,plus,times} sliding_window \<Rightarrow> 'a" where
  "naive_sum_pv w = foldl (\<lambda>acc t. acc + price t * size_pt t) 0 (live w)"

definition naive_sum_v :: "'a::{zero,plus} sliding_window \<Rightarrow> 'a" where
  "naive_sum_v w = foldl (\<lambda>acc t. acc + size_pt t) 0 (live w)"

definition sums_exact :: "'a::{zero,plus,times} sliding_window \<Rightarrow> bool" where
  "sums_exact w \<longleftrightarrow> sum_price_volume w = naive_sum_pv w \<and> sum_volume w = naive_sum_v w"

text \<open>
  A call that evicts nothing: the pruning loop does not run (the window is empty or
  its head has not expired) and the window is not full. \<open>none_evicted\<close> says so of
  every call of a sequence, each in the state the calls before it have left.
\<close>

definition evicts_nothing :: "'a sliding_window \<Rightarrow> int \<Rightarrow> bool" where
  "evicts_nothing w ts_ms \<longleftrightarrow>
     \<not> (0 < sw_size w \<and> trade_ts_ms (sw_buffer w ! sw_head_idx w) < ts_ms - WINDOW_MS) \<and>
     sw_size w \<noteq> sw_capacity w"

fun none_evicted ::
  "'a::{plus,minus,times} sliding_window \<Rightarrow> (int \<times> 'a \<times> 'a) list \<Rightarrow> bool" where
  "none_evicted w [] \<longleftrightarrow> True"
| "none_evicted w ((ts_ms, p, s) # rest) \<longleftrightarrow>
     evicts_nothing w ts_ms \<and> none_evicted (sliding_window_add_trade w ts_ms p s) rest"

text \<open>
  An initialised window of another capacity than the 50000 of the configuration, for
  scenarios small enough to evaluate.
\<close>

definition window_of_capacity :: "nat \<Rightarrow> 'a::zero sliding_window" where
  "window_of_capacity c =
     \<lparr>sw_buffer = replicate c \<lparr>trade_ts_ms = 0, price = 0, size_pt = 0\<rparr>,
      sw_capacity = c, sw_head_idx = 0, sw_tail_idx = 0, sw_size = 0,
      sum_price_volume = 0, sum_volume = 0\<rparr>"

section \<open>The VWAP history (vwap_history.c)\<close>

text \<open>
  \<open>vwap_point\<close> and \<open>vwap_history\<close> of common.h. Capacity, indices and size are
  \<open>int\<close>s in the source and integers here; an array is read at \<open>nat i\<close>, and under
  the well-formedness stated below every index computed is inside the array.
\<close>

record vwap_point =
  minute_ts_ms :: int
  vwap :: double

record vwap_history =
  vh_buffer :: "vwap_point list"
  vh_capacity :: int
  vh_head_idx :: int
  vh_tail_idx :: int
  vh_size :: int

definition NUM_SYMBOLS :: nat where
  "NUM_SYMBOLS = 8"

definition MOVING_AVG_POINTS :: int where
  "MOVING_AVG_POINTS = 8"

definition MAX_LAG_MINUTES :: int where
  "MAX_LAG_MINUTES = 60"

definition VWAP_HISTORY_SIZE_MINUTES :: int where
  "VWAP_HISTORY_SIZE_MINUTES = MAX_LAG_MINUTES + MOVING_AVG_POINTS"

definition MS_PER_MINUTE :: int where
  "MS_PER_MINUTE = 60000"

definition vwap_history_init :: "int \<Rightarrow> vwap_history" where
  "vwap_history_init capacity =
     \<lparr>vh_buffer = replicate (nat capacity) \<lparr>minute_ts_ms = 0, vwap = 0\<rparr>,
      vh_capacity = capacity, vh_head_idx = 0, vh_tail_idx = 0, vh_size = 0\<rparr>"

definition history_make_room :: "vwap_history \<Rightarrow> vwap_history" where
  "history_make_room h =
     (if vh_size h = vh_capacity h
      then h\<lparr>vh_head_idx := (vh_head_idx h + 1) smod vh_capacity h, vh_size := vh_size h - 1\<rparr>
      else h)"

definition history_store :: "vwap_history \<Rightarrow> int \<Rightarrow> double \<Rightarrow> vwap_history" where
  "history_store h minute_ts v =
     h\<lparr>vh_buffer := (vh_buffer h)[nat (vh_tail_idx h) := \<lparr>minute_ts_ms = minute_ts, vwap = v\<rparr>],
       vh_tail_idx := (vh_tail_idx h + 1) smod vh_capacity h,
       vh_size := vh_size h + 1\<rparr>"

definition vwap_history_append :: "vwap_history \<Rightarrow> int \<Rightarrow> double \<Rightarrow> vwap_history" where
  "vwap_history_append h minute_ts v = history_store (history_make_room h) minute_ts v"

text \<open>\<open>vwap_history_get_recent\<close>: \<open>None\<close> is the return value 0 (not enough data).\<close>

definition recent_from :: "vwap_history \<Rightarrow> int \<Rightarrow> int \<Rightarrow> vwap_point list" where
  "recent_from h start_idx_from_tail n =
     map (\<lambda>i. vh_buffer h ! nat ((start_idx_from_tail + int i) smod vh_capacity h)) [0..<nat n]"

definition vwap_history_get_recent :: "vwap_history \<Rightarrow> int \<Rightarrow> vwap_point list option" where
  "vwap_history_get_recent h n =
     (if vh_size h < n then None
      else Some (recent_from h ((vh_tail_idx h - n + vh_capacity h) smod vh_capacity h) n))"

text \<open>The entries of a history, oldest first, and its well-formedness.\<close>

definition entries :: "vwap_history \<Rightarrow> vwap_point list" where
  "entries h = ring_list (vh_buffer h) (nat (vh_capacity h)) (nat (vh_head_idx h)) (nat (vh_size h))"

definition history_ok :: "vwap_history \<Rightarrow> bool" where
  "history_ok h \<longleftrightarrow>
     vh_capacity h = int (length (vh_buffer h)) \<and> 0 < vh_capacity h \<and>
     0 \<le> vh_head_idx h \<and> vh_head_idx h < vh_capacity h \<and>
     0 \<le> vh_size h \<and> vh_size h \<le> vh_capacity h \<and>
     vh_tail_idx h = (vh_head_idx h + vh_size h) mod vh_capacity h"

section \<open>Pearson correlation and the lag search (correlation.c)\<close>

record pearson_sums =
  sum_x :: double
  sum_y :: double
  sum_xx :: double
  sum_yy :: double
  sum_xy :: double

definition pearson_step :: "double list \<Rightarrow> double list \<Rightarrow> nat \<Rightarrow> pearson_sums \<Rightarrow> pearson_sums" where
  "pearson_step x y i s =
     \<lparr>sum_x = sum_x s + x ! i,
      sum_y = sum_y s + y ! i,
      sum_xx = sum_xx s + x ! i * x ! i,
      sum_yy = sum_yy s + y ! i * y ! i,
      sum_xy = sum_xy s + x ! i * y ! i\<rparr>"

definition pearson_loop :: "double list \<Rightarrow> double list \<Rightarrow> int \<Rightarrow> pearson_sums" where
  "pearson_loop x y n =
     fold (pearson_step x y) [0..<nat n]
       \<lparr>sum_x = 0, sum_y = 0, sum_xx = 0, sum_yy = 0, sum_xy = 0\<rparr>"

definition pearson_numerator :: "int \<Rightarrow> pearson_sums \<Rightarrow> double" where
  "pearson_numerator n s = d_of_int n * sum_xy s - sum_x s * sum_y s"

text \<open>The variance term \<open>n * sum_xx - sum_x * sum_x\<close> of one series.\<close>

definition variance_term :: "int \<Rightarrow> double \<Rightarrow> double \<Rightarrow> double" where
  "variance_term n sum_sq sum_1 = d_of_int n * sum_sq - sum_1 * sum_1"

definition pearson_denominator :: "int \<Rightarrow> pearson_sums \<Rightarrow> double" where
  "pearson_denominator n s =
     dsqrt (variance_term n (sum_xx s) (sum_x s) * variance_term n (sum_yy s) (sum_y s))"

definition pearson_ratio :: "double \<Rightarrow> double \<Rightarrow> double" where
  "pearson_ratio numerator denominator =
     (if deq denominator 0 then NaN else numerator / denominator)"

definition pearson_of_sums :: "int \<Rightarrow> pearson_sums \<Rightarrow> double" where
  "pearson_of_sums n s = pearson_ratio (pearson_numerator n s) (pearson_denominator n s)"

definition pearson_correlation :: "double list \<Rightarrow> double list \<Rightarrow> int \<Rightarrow> double" where
  "pearson_correlation x y n = pearson_of_sums n (pearson_loop x y n)"

text \<open>
  \<open>find_best_lagged_correlation\<close>. The two output parameters are returned as a pair;
  the search state is the three locals of the loop. The local array \<open>target_vec\<close> has
  \<open>MOVING_AVG_POINTS\<close> slots, so the function is meant for window lengths up to 8.
\<close>

record lag_search =
  best_corr_val :: double
  best_end_minute_ms :: int
  found_match :: bool

definition window_start_idx :: "vwap_history \<Rightarrow> int \<Rightarrow> int \<Rightarrow> int" where
  "window_start_idx h window_len offset =
     (vh_head_idx h + vh_size h - window_len - offset) smod vh_capacity h"

definition target_vec :: "vwap_history \<Rightarrow> int \<Rightarrow> int \<Rightarrow> double list" where
  "target_vec h window_len start =
     map (\<lambda>i. vwap (vh_buffer h ! nat ((start + int i) smod vh_capacity h))) [0..<nat window_len]"

definition end_minute_ms :: "vwap_history \<Rightarrow> int \<Rightarrow> int \<Rightarrow> int" where
  "end_minute_ms h window_len start =
     minute_ts_ms (vh_buffer h ! nat ((start + window_len - 1) smod vh_capacity h))"

definition lag_update :: "double \<Rightarrow> int \<Rightarrow> lag_search \<Rightarrow> lag_search" where
  "lag_update corr end_ms st =
     (if \<not> isnan corr
      then (if \<not> found_match st \<or> fabs (best_corr_val st) < fabs corr
            then \<lparr>best_corr_val = corr, best_end_minute_ms = end_ms, found_match = True\<rparr>
            else st)
      else st)"

definition lag_at :: "double list \<Rightarrow> vwap_history \<Rightarrow> int \<Rightarrow> int \<Rightarrow> lag_search \<Rightarrow> lag_search" where
  "lag_at src_vec h window_len start st =
     lag_update (pearson_correlation src_vec (target_vec h window_len start) window_len)
       (end_minute_ms h window_len start) st"

definition lag_step :: "double list \<Rightarrow> vwap_history \<Rightarrow> int \<Rightarrow> int \<Rightarrow> lag_search \<Rightarrow> lag_search" where
  "lag_step src_vec h window_len offset st =
     lag_at src_vec h window_len (window_start_idx h window_len offset) st"

definition lag_result :: "lag_search \<Rightarrow> double \<times> int" where
  "lag_result st = (if found_match st then (best_corr_val st, best_end_minute_ms st) else (NaN, 0))"

definition lag_search_from :: "double list \<Rightarrow> vwap_history \<Rightarrow> int \<Rightarrow> int \<Rightarrow> int \<Rightarrow> double \<times> int" where
  "lag_search_from src_vec h window_len min_offset_min max_search_offset =
     lag_result (fold (lag_step src_vec h window_len) [min_offset_min..max_search_offset]
       \<lparr>best_corr_val = 0, best_end_minute_ms = 0, found_match = False\<rparr>)"

definition find_best_lagged_correlation ::
  "double list \<Rightarrow> vwap_history \<Rightarrow> int \<Rightarrow> int \<Rightarrow> int \<Rightarrow> double \<times> int" where
  "find_best_lagged_correlation src_vec target_hist window_len min_offset_min max_lag_min =
     (if vh_size target_hist < window_len + min_offset_min then (NaN, 0)
      else lag_search_from src_vec target_hist window_len min_offset_min
             (if max_lag_min < vh_size target_hist - window_len then max_lag_min
              else vh_size target_hist - window_len))"

text \<open>
  The candidate of the specification: the \<open>P\<close> consecutive entries that end \<open>offset\<close>
  positions before the tail, their correlation with the source vector, and the
  minute of their last entry.
\<close>

definition candidate_window :: "vwap_history \<Rightarrow> int \<Rightarrow> int \<Rightarrow> vwap_point list" where
  "candidate_window h P offset = take (nat P) (drop (nat (vh_size h - P - offset)) (entries h))"

definition candidate_corr :: "double list \<Rightarrow> vwap_history \<Rightarrow> int \<Rightarrow> int \<Rightarrow> double" where
  "candidate_corr src h P offset = pearson_correlation src (map vwap (candidate_window h P offset)) P"

definition candidate_end :: "vwap_history \<Rightarrow> int \<Rightarrow> int \<Rightarrow> int" where
  "candidate_end h P offset = minute_ts_ms (last (candidate_window h P offset))"

section \<open>The two workers of a minute tick (vwap_calculator.c, correlation.c)\<close>

record symbol_data =
  symbol :: string
  trade_window :: "double sliding_window"
  vwap_hist :: vwap_history

text \<open>One iteration of the loop of \<open>vwap_worker_fn\<close>, for one symbol.\<close>

definition vwap_worker_symbol :: "int \<Rightarrow> symbol_data \<Rightarrow> symbol_data" where
  "vwap_worker_symbol current_minute_ms sd =
     sd\<lparr>vwap_hist :=
          vwap_history_append (vwap_hist sd) current_minute_ms
            (sliding_window_snapshot_vwap (trade_window sd))\<rparr>"

text \<open>
  One iteration of the outer loop of \<open>correlation_worker_fn\<close>, for the source symbol
  \<open>i\<close>: the row appended to the correlation log, or \<open>None\<close> when the iteration writes
  nothing. The histories are read as they stand when the iteration runs.
\<close>

record target_search =
  best_corr_for_symbol :: double
  best_ts_for_symbol :: int
  best_j :: int
  found_any :: bool

record correlation_row =
  row_symbol :: nat
  row_minute_ms :: int
  correlated_with :: int
  correlation :: double
  lag_timestamp_ms :: int

definition target_update :: "int \<Rightarrow> double \<times> int \<Rightarrow> target_search \<Rightarrow> target_search" where
  "target_update j current_best st =
     (if \<not> isnan (fst current_best)
      then (if \<not> found_any st \<or> fabs (best_corr_for_symbol st) < fabs (fst current_best)
            then \<lparr>best_corr_for_symbol = fst current_best, best_ts_for_symbol = snd current_best,
                  best_j = j, found_any = True\<rparr>
            else st)
      else st)"

definition target_step :: "symbol_data list \<Rightarrow> double list \<Rightarrow> nat \<Rightarrow> nat \<Rightarrow> target_search \<Rightarrow> target_search" where
  "target_step symbols src_vwap_vec i j st =
     target_update (int j)
       (find_best_lagged_correlation src_vwap_vec (vwap_hist (symbols ! j)) MOVING_AVG_POINTS
          (if i = j then MOVING_AVG_POINTS else 0) MAX_LAG_MINUTES) st"

definition row_of :: "nat \<Rightarrow> int \<Rightarrow> target_search \<Rightarrow> correlation_row option" where
  "row_of i current_minute_ms st =
     (if found_any st
      then Some \<lparr>row_symbol = i, row_minute_ms = current_minute_ms, correlated_with = best_j st,
                 correlation = best_corr_for_symbol st, lag_timestamp_ms = best_ts_for_symbol st\<rparr>
      else None)"

definition best_target :: "symbol_data list \<Rightarrow> double list \<Rightarrow> nat \<Rightarrow> target_search" where
  "best_target symbols src_vwap_vec i =
     fold (target_step symbols src_vwap_vec i) [0..<NUM_SYMBOLS]
       \<lparr>best_corr_for_symbol = 0, best_ts_for_symbol = 0, best_j = - 1, found_any = False\<rparr>"

definition correlation_row_for :: "symbol_data list \<Rightarrow> int \<Rightarrow> nat \<Rightarrow> correlation_row option" where
  "correlation_row_for symbols current_minute_ms i =
     (case vwap_history_get_recent (vwap_hist (symbols ! i)) MOVING_AVG_POINTS of
        None \<Rightarrow> None
      | Some src_points_buf \<Rightarrow>
          row_of i current_minute_ms (best_target symbols (map vwap src_points_buf) i))"

text \<open>
  The choice of the specification among the offsets \<open>S\<close> with correlations \<open>c\<close>: the
  offset \<open>b\<close> is a candidate that is not NaN, no candidate that is not NaN has a
  larger absolute correlation, and every earlier one that is not NaN has a smaller one.
\<close>

definition first_largest :: "(int \<Rightarrow> double) \<Rightarrow> int set \<Rightarrow> int \<Rightarrow> bool" where
  "first_largest c S b \<longleftrightarrow>
     b \<in> S \<and> \<not> isnan (c b) \<and>
     (\<forall>k \<in> S. \<not> isnan (c k) \<longrightarrow> \<not> fabs (c b) < fabs (c k)) \<and>
     (\<forall>k \<in> S. k < b \<and> \<not> isnan (c k) \<longrightarrow> fabs (c k) < fabs (c b))"

text \<open>
  What the minute-driven writer leaves in a history: consecutive points at least one
  minute apart.
\<close>

fun spaced :: "int list \<Rightarrow> bool" where
  "spaced (a # b # rest) \<longleftrightarrow> a + MS_PER_MINUTE \<le> b \<and> spaced (b # rest)"
| "spaced _ \<longleftrightarrow> True"

definition minute_spaced :: "vwap_history \<Rightarrow> bool" where
  "minute_spaced h \<longleftrightarrow> spaced (map minute_ts_ms (entries h))"

section \<open>The symbol table (config.h, main.c)\<close>

definition SYMBOLS :: "string list" where
  "SYMBOLS = [''BTC-USDT'', ''ADA-USDT'', ''ETH-USDT'', ''DOGE-USDT'', ''XRP-USDT'', ''SOL-USDT'',
              ''LTC-USDT'', ''BNB-USDT'']"

text \<open>\<open>symbols_data_init\<close>, for one symbol.\<close>

definition symbol_init :: "string \<Rightarrow> symbol_data" where
  "symbol_init name =
     \<lparr>symbol = name, trade_window = sliding_window_init,
      vwap_hist = vwap_history_init VWAP_HISTORY_SIZE_MINUTES\<rparr>"

text \<open>
  Histories to run the workers on: the points \<open>pts\<close> appended in turn, the symbol
  table after each symbol has recorded its list of points, and the points of the
  consecutive minutes \<open>k, k + 1, \<dots>\<close> with the given VWAPs.
\<close>

definition record_minutes :: "vwap_point list \<Rightarrow> vwap_history \<Rightarrow> vwap_history" where
  "record_minutes pts h = fold (\<lambda>p h. vwap_history_append h (minute_ts_ms p) (vwap p)) pts h"

definition symbols_after :: "vwap_point list list \<Rightarrow> symbol_data list" where
  "symbols_after recorded =
     map (\<lambda>(name, pts). (symbol_init name)\<lparr>vwap_hist :=
            record_minutes pts (vwap_history_init VWAP_HISTORY_SIZE_MINUTES)\<rparr>)
       (zip SYMBOLS recorded)"

definition minutes_from :: "int \<Rightarrow> double list \<Rightarrow> vwap_point list" where
  "minutes_from k vs =
     map (\<lambda>(i, v). \<lparr>minute_ts_ms = (k + int i) * MS_PER_MINUTE, vwap = v\<rparr>) (zip [0..<length vs] vs)"

section \<open>Auxiliary notions for the properties of the correlation\<close>

text \<open>The sums of the loop with the two series exchanged.\<close>

definition swap_sums :: "pearson_sums \<Rightarrow> pearson_sums" where
  "swap_sums s = \<lparr>sum_x = sum_y s, sum_y = sum_x s, sum_xx = sum_yy s, sum_yy = sum_xx s,
                  sum_xy = sum_xy s\<rparr>"

text \<open>Sums that a NaN of one of the two series has reached.\<close>

definition nan_sums :: "pearson_sums \<Rightarrow> bool" where
  "nan_sums s \<longleftrightarrow> (isnan (sum_x s) \<and> isnan (sum_xx s)) \<or> (isnan (sum_y s) \<and> isnan (sum_yy s))"

text \<open>
  The variance term \<open>n * sum_xx - sum_x * sum_x\<close> that the loop computes for a series
  correlated with itself, and the doubles whose square is a normal double again:
  the normal doubles \<open>v\<close> with \<open>2 ^ - 511 \<le> \<bar>v\<bar> < 2 ^ 512\<close>.
\<close>

definition self_variance :: "double list \<Rightarrow> int \<Rightarrow> double" where
  "self_variance x n =
     variance_term n (sum_xx (pearson_loop x x n)) (sum_x (pearson_loop x x n))"

definition squarable :: "double \<Rightarrow> bool" where
  "squarable v \<longleftrightarrow>
     (case v of
        Fin m e \<Rightarrow> 2 ^ 52 \<le> abs m \<and> abs m < 2 ^ 53 \<and> - 563 \<le> e \<and> e \<le> 459
      | _ \<Rightarrow> False)"

text \<open>The double nearest to \<open>0.1\<close>.\<close>

definition tenth :: double where
  "tenth = Fin 7205759403792794 (- 56)"

section \<open>The OKX trade parser (okx_parser.c)\<close>

text \<open>
  A C string is the list of its characters before the terminating zero; a pointer
  into it is the rest of the string from that position on, and \<open>NULL\<close> is \<open>None\<close>.
  \<open>strstr\<close> and \<open>strchr\<close> are those of \<open>string.h\<close>.
\<close>

fun starts_with :: "string \<Rightarrow> string \<Rightarrow> bool" where
  "starts_with [] _ \<longleftrightarrow> True"
| "starts_with (a # as) [] \<longleftrightarrow> False"
| "starts_with (a # as) (b # bs) \<longleftrightarrow> a = b \<and> starts_with as bs"

fun strstr :: "string \<Rightarrow> string \<Rightarrow> string option" where
  "strstr [] needle = (if needle = [] then Some [] else None)"
| "strstr (c # rest) needle =
     (if starts_with needle (c # rest) then Some (c # rest) else strstr rest needle)"

fun strchr :: "string \<Rightarrow> char \<Rightarrow> string option" where
  "strchr [] c = None"
| "strchr (a # rest) c = (if a = c then Some (a # rest) else strchr rest c)"

definition DQUOTE :: char where
  "DQUOTE = CHR 0x22"

definition quoted :: "string \<Rightarrow> string" where
  "quoted s = DQUOTE # s @ [DQUOTE]"

definition is_blank :: "char \<Rightarrow> bool" where
  "is_blank c \<longleftrightarrow> c = CHR '' '' \<or> c = CHR 0x09 \<or> c = CHR 0x0A \<or> c = CHR 0x0D"

text \<open>
  \<open>json_extract_string\<close>: the value copied into \<open>out\<close> (cut to \<open>outsz - 1\<close>
  characters) and the position after its closing quote. \<open>quoted_value\<close> is the
  part of the function after the colon.
\<close>

definition quoted_value :: "string \<Rightarrow> nat \<Rightarrow> (string \<times> string) option" where
  "quoted_value p outsz =
     (case dropWhile is_blank p of
        [] \<Rightarrow> None
      | c # q \<Rightarrow>
          if c \<noteq> DQUOTE then None
          else (case strchr q DQUOTE of
                  None \<Rightarrow> None
                | Some end_quote \<Rightarrow>
                    Some (take (if outsz \<le> length q - length end_quote then outsz - 1
                                else length q - length end_quote) q,
                          tl end_quote)))"

definition json_extract_string :: "string \<Rightarrow> string \<Rightarrow> nat \<Rightarrow> (string \<times> string) option" where
  "json_extract_string json key outsz =
     (case strstr json key of
        None \<Rightarrow> None
      | Some p \<Rightarrow> (case strchr p (CHR '':'') of
                     None \<Rightarrow> None
                   | Some colon \<Rightarrow> quoted_value (tl colon) outsz))"

text \<open>
  \<open>strtod\<close> and \<open>strtoll\<close> belong to the C library and are parameters of the parser:
  a conversion yields the value, the rest of the string at \<open>endp\<close>, and whether it
  has set \<open>errno\<close>. \<open>now_ms\<close> reads the clock; the value it would return is a
  parameter too.
\<close>

record 'v conversion =
  conv_value :: 'v
  conv_end :: string
  conv_errno :: bool

definition rejected :: "('v::{zero, ord}) conversion \<Rightarrow> bool" where
  "rejected r \<longleftrightarrow> conv_errno r \<or> conv_end r \<noteq> [] \<or> conv_value r \<le> 0"

text \<open>The loop that maps \<open>instId\<close> to its index in \<open>SYMBOLS\<close>; \<open>- 1\<close> when it is not there.\<close>

fun symbol_search :: "string \<Rightarrow> string list \<Rightarrow> int \<Rightarrow> int" where
  "symbol_search inst_id [] i = - 1"
| "symbol_search inst_id (name # names) i =
     (if inst_id = name then i else symbol_search inst_id names (i + 1))"

definition trade_obj_start :: "string \<Rightarrow> string option" where
  "trade_obj_start json =
     (case strstr json (quoted ''data'') of
        None \<Rightarrow> None
      | Some data_arr_start \<Rightarrow>
          (case strchr data_arr_start (CHR ''['') of
             None \<Rightarrow> None
           | Some bracket \<Rightarrow> strchr (tl bracket) (CHR ''{'')))"

definition trade_timestamp :: "(string \<Rightarrow> int conversion) \<Rightarrow> int \<Rightarrow> string \<Rightarrow> int" where
  "trade_timestamp strtoll now cursor =
     (case json_extract_string cursor (quoted ''ts'') 32 of
        None \<Rightarrow> now
      | Some (ts_str, _) \<Rightarrow>
          if rejected (strtoll ts_str) then now else conv_value (strtoll ts_str))"

definition parse_size ::
  "(string \<Rightarrow> double conversion) \<Rightarrow> (string \<Rightarrow> int conversion) \<Rightarrow> int \<Rightarrow> int \<Rightarrow> double \<Rightarrow>
   string \<Rightarrow> double raw_trade_message \<Rightarrow> double raw_trade_message option" where
  "parse_size strtod strtoll now symbol_idx price_val cursor msg =
     (case json_extract_string cursor (quoted ''sz'') 32 of
        None \<Rightarrow> None
      | Some (size_str, cursor') \<Rightarrow>
          if rejected (strtod size_str) then None
          else Some (msg\<lparr>symbol_index := symbol_idx,
                         exchange_ts_ms := trade_timestamp strtoll now cursor',
                         msg_price := price_val,
                         msg_size := conv_value (strtod size_str)\<rparr>))"

definition parse_price ::
  "(string \<Rightarrow> double conversion) \<Rightarrow> (string \<Rightarrow> int conversion) \<Rightarrow> int \<Rightarrow> int \<Rightarrow>
   string \<Rightarrow> double raw_trade_message \<Rightarrow> double raw_trade_message option" where
  "parse_price strtod strtoll now symbol_idx cursor msg =
     (case json_extract_string cursor (quoted ''px'') 32 of
        None \<Rightarrow> None
      | Some (price_str, cursor') \<Rightarrow>
          if rejected (strtod price_str) then None
          else parse_size strtod strtoll now symbol_idx (conv_value (strtod price_str)) cursor' msg)"

text \<open>\<open>parse_okx_trade\<close>: \<open>Some\<close> of the populated message is the return value 1, \<open>None\<close> is 0.\<close>

definition parse_okx_trade ::
  "(string \<Rightarrow> double conversion) \<Rightarrow> (string \<Rightarrow> int conversion) \<Rightarrow> int \<Rightarrow>
   string \<Rightarrow> double raw_trade_message \<Rightarrow> double raw_trade_message option" where
  "parse_okx_trade strtod strtoll now json msg =
     (case trade_obj_start json of
        None \<Rightarrow> None
      | Some trade_obj \<Rightarrow>
          (case json_extract_string trade_obj (quoted ''instId'') 32 of
             None \<Rightarrow> None
           | Some (inst_id, cursor) \<Rightarrow>
               if symbol_search inst_id SYMBOLS 0 < 0 then None
               else parse_price strtod strtoll now (symbol_search inst_id SYMBOLS 0) cursor msg))"

text \<open>
  An example. An instance of the two library functions that is sufficient for the
  example messages: it converts the two decimal strings of the messages and
  performs no conversion on any other string (the value is 0 and \<open>endp\<close> is the
  string itself), which is what the library does on the string \<open>soon\<close>. A trade
  message with further fields \<open>extra\<close> after \<open>sz\<close>, and the all-zero message.
\<close>

definition example_strtod :: "string \<Rightarrow> double conversion" where
  "example_strtod s =
     (if s = ''27340'' then \<lparr>conv_value = d_of_int 27340, conv_end = [], conv_errno = False\<rparr>
      else if s = ''2'' then \<lparr>conv_value = d_of_int 2, conv_end = [], conv_errno = False\<rparr>
      else \<lparr>conv_value = 0, conv_end = s, conv_errno = False\<rparr>)"

definition example_strtoll :: "string \<Rightarrow> int conversion" where
  "example_strtoll s = \<lparr>conv_value = 0, conv_end = s, conv_errno = False\<rparr>"

definition example_trade :: "string \<Rightarrow> string" where
  "example_trade extra =
     ''{'' @ quoted ''arg'' @ '':{'' @ quoted ''channel'' @ '':'' @ quoted ''trades'' @ '','' @
     quoted ''instId'' @ '':'' @ quoted ''ETH-USDT'' @ ''},'' @ quoted ''data'' @ '':[{'' @
     quoted ''instId'' @ '':'' @ quoted ''ETH-USDT'' @ '','' @ quoted ''px'' @ '': '' @
     quoted ''27340'' @ '','' @ quoted ''sz'' @ '':'' @ quoted ''2'' @ extra @ ''}]}''"

definition zero_message :: "double raw_trade_message" where
  "zero_message = \<lparr>symbol_index = 0, exchange_ts_ms = 0, msg_price = 0, msg_size = 0,
                    raw_json = [], receive_ts_ms = 0\<rparr>"

chapter \<open>Properties\<close>

section \<open>Ring arithmetic\<close>

lemma ring_mod_inj:
  assumes "k < c" "n < c" "(h + k) mod c = (h + n) mod (c::nat)"
  shows "k = n"
proof -
  have aux: "a = b" if "a \<le> b" "b < c" "(h + b) mod c = (h + a) mod c" for a b :: nat
  proof -
    have le: "h + a \<le> h + b" using that(1) by linarith
    have "c dvd (h + b) - (h + a)"
      using that(3) by (simp only: mod_eq_dvd_iff_nat [OF le])
    moreover have "(h + b) - (h + a) = b - a" by linarith
    ultimately have "c dvd b - a" by (simp only:)
    moreover have "b - a < c" using that(2) by linarith
    ultimately have "\<not> 0 < b - a"
      using nat_dvd_not_less by blast
    with that(1) show ?thesis by linarith
  qed
  show ?thesis
  proof (cases "k \<le> n")
    case True
    then show ?thesis using assms(2) assms(3) [symmetric] by (rule aux)
  next
    case False
    then have "n \<le> k" by linarith
    then have "n = k" using assms(1) assms(3) by (rule aux)
    then show ?thesis by (rule sym)
  qed
qed

lemma ring_idx_tail:
  assumes "h < c" "t < c"
  shows "(h + (t + c - h) mod c) mod c = (t::nat)"
proof (cases "h \<le> t")
  case True
  have e: "t + c - h = (t - h) + c" using True by linarith
  have "(t + c - h) mod c = (t - h) mod c"
    unfolding e by (rule mod_add_self2)
  also have "\<dots> = t - h"
    using assms(2) by (intro mod_less) linarith
  finally have n: "(t + c - h) mod c = t - h" .
  have "h + (t - h) = t" using True by linarith
  then show ?thesis
    unfolding n using assms(2) by (simp only: mod_less)
next
  case False
  have "t + c - h < c" using False assms by linarith
  then have n: "(t + c - h) mod c = t + c - h" by (rule mod_less)
  have "h + (t + c - h) = t + c" using assms by linarith
  then have "(h + (t + c - h)) mod c = t mod c"
    by (simp only: mod_add_self2)
  then show ?thesis
    unfolding n using assms(2) by (simp only: mod_less)
qed

lemma ring_size_unique:
  assumes "h < c" "t < c" "n < c" "(h + n) mod c = (t::nat)"
  shows "(t + c - h) mod c = n"
proof -
  have "(h + (t + c - h) mod c) mod c = (h + n) mod c"
    using assms by (simp add: ring_idx_tail)
  moreover have "(t + c - h) mod c < c"
    using assms by simp
  ultimately show ?thesis
    using assms(3) by (rule ring_mod_inj [rotated 2])
qed

lemma ring_full_iff:
  assumes "h < c" "t < c"
  shows "((t + c - h) mod c = c - 1) = (Suc t mod c = (h::nat))"
proof
  assume "(t + c - h) mod c = c - 1"
  then have "(h + (c - 1)) mod c = t"
    using ring_idx_tail [OF assms] by simp
  then have "Suc t mod c = Suc (h + (c - 1)) mod c"
    by (metis mod_Suc_eq)
  also have "Suc (h + (c - 1)) = h + c" using assms by linarith
  finally show "Suc t mod c = h" using assms by simp
next
  assume full: "Suc t mod c = h"
  have "(h + (c - 1)) mod c = (Suc t + (c - 1)) mod c"
    unfolding full [symmetric] by (rule mod_add_left_eq)
  also have "Suc t + (c - 1) = t + c" using assms by linarith
  finally have "(h + (c - 1)) mod c = t" using assms by simp
  moreover have "c - 1 < c" using assms by linarith
  ultimately show "(t + c - h) mod c = c - 1"
    using assms by (intro ring_size_unique)
qed

lemma ring_size_snoc:
  assumes "h < c" "t < c" "Suc t mod c \<noteq> (h::nat)"
  shows "(Suc t mod c + c - h) mod c = Suc ((t + c - h) mod c)"
proof -
  let ?n = "(t + c - h) mod c"
  have "?n \<noteq> c - 1" using assms ring_full_iff [of h c t] by simp
  moreover have "?n < c" using assms by simp
  ultimately have lt: "Suc ?n < c" by linarith
  have "(h + Suc ?n) mod c = Suc ((h + ?n) mod c) mod c"
    by (simp add: mod_Suc_eq)
  then have "(h + Suc ?n) mod c = Suc t mod c"
    using assms by (simp add: ring_idx_tail)
  moreover have "Suc t mod c < c" using assms by simp
  ultimately show ?thesis
    using assms(1) lt by (intro ring_size_unique)
qed

lemma ring_size_evict:
  assumes "h < c" "t < c" "Suc t mod c = (h::nat)"
  shows "(Suc t mod c + c - Suc h mod c) mod c = c - 1"
proof -
  have "(Suc h mod c + (c - 1)) mod c = (Suc h + (c - 1)) mod c"
    by (simp add: mod_add_left_eq)
  also have "Suc h + (c - 1) = h + c" using assms by linarith
  finally have "(Suc h mod c + (c - 1)) mod c = Suc t mod c"
    using assms by simp
  moreover have "Suc h mod c < c" "Suc t mod c < c" "c - 1 < c"
    using assms by simp_all
  ultimately show ?thesis
    by (intro ring_size_unique)
qed

lemma ring_list_length [simp]: "length (ring_list buf c h n) = n"
  by (simp add: ring_list_def)

lemma ring_list_nth: "k < n \<Longrightarrow> ring_list buf c h n ! k = buf ! ((h + k) mod c)"
  by (simp add: ring_list_def)

lemma ring_list_tl: "ring_list buf c (Suc h mod c) (n - 1) = tl (ring_list buf c h n)"
  by (rule nth_equalityI) (simp_all add: ring_list_nth nth_tl mod_add_left_eq)

lemma ring_list_keep:
  assumes "n < c"
  shows "ring_list (buf[(h + n) mod c := x]) c h n = ring_list buf c h n"
proof (rule nth_equalityI)
  fix k assume "k < length (ring_list (buf[(h + n) mod c := x]) c h n)"
  then have k: "k < n" by simp
  with assms have "(h + k) mod c \<noteq> (h + n) mod c"
    using ring_mod_inj [of k c n h] by auto
  then show "ring_list (buf[(h + n) mod c := x]) c h n ! k = ring_list buf c h n ! k"
    using k by (simp add: ring_list_nth)
qed simp

lemma ring_list_snoc:
  assumes "n < c" "length buf = c"
  shows "ring_list (buf[(h + n) mod c := x]) c h (Suc n) = ring_list buf c h n @ [x]"
proof -
  have "ring_list (buf[(h + n) mod c := x]) c h (Suc n) =
        ring_list (buf[(h + n) mod c := x]) c h n @ [buf[(h + n) mod c := x] ! ((h + n) mod c)]"
    by (simp add: ring_list_def)
  moreover have "(h + n) mod c < length buf"
    using assms by simp
  ultimately show ?thesis
    using assms by (simp add: ring_list_keep)
qed

lemma ring_size_drop:
  assumes "h < c" "t < c" "0 < (t + c - h) mod (c::nat)"
  shows "(t + c - Suc h mod c) mod c = (t + c - h) mod c - 1"
proof -
  let ?n = "(t + c - h) mod c"
  have "(Suc h mod c + (?n - 1)) mod c = (Suc h + (?n - 1)) mod c"
    by (rule mod_add_left_eq)
  also have "Suc h + (?n - 1) = h + ?n" using assms(3) by linarith
  finally have "(Suc h mod c + (?n - 1)) mod c = t"
    using assms by (simp only: ring_idx_tail)
  moreover have "Suc h mod c < c" "?n - 1 < c"
    using assms(1) by (simp_all add: less_imp_diff_less)
  ultimately show ?thesis
    using assms(2) by (intro ring_size_unique)
qed

section \<open>The ingress ring\<close>

lemma mod_wrap: "a < 2 * c \<Longrightarrow> (a::nat) mod c = (if a < c then a else a - c)"
  by (simp add: mod_if)

lemma u32_id: "n < 2 ^ 32 \<Longrightarrow> u32 n = n"
  by (simp add: u32_def)

lemma drop_oldest_ok:
  assumes "queue_ok q"
  shows "drop_oldest q =
     Some (q\<lparr>q_head_idx :=
        (if (q_tail_idx q + 1) mod q_capacity q = q_head_idx q
         then (q_head_idx q + 1) mod q_capacity q else q_head_idx q)\<rparr>)"
proof -
  from assms have c: "2 \<le> q_capacity q" "q_capacity q < 2 ^ 32"
    and h: "q_head_idx q < q_capacity q" and t: "q_tail_idx q < q_capacity q"
    by (simp_all add: queue_ok_def)
  have ut: "u32 (Suc (q_tail_idx q)) = Suc (q_tail_idx q)"
    using c t by (intro u32_id) linarith
  have uh: "u32 (Suc (q_head_idx q)) = Suc (q_head_idx q)"
    using c h by (intro u32_id) linarith
  show ?thesis
  proof (cases "Suc (q_tail_idx q) mod q_capacity q = q_head_idx q")
    case False
    then show ?thesis
      using c by (subst drop_oldest.simps) (simp add: ut)
  next
    case True
    have ne: "Suc (q_head_idx q) mod q_capacity q \<noteq> q_head_idx q"
      using c h by (simp add: mod_wrap)
    show ?thesis
      using c True ne
      by (subst drop_oldest.simps, subst drop_oldest.simps) (simp add: ut uh)
  qed
qed

lemma raw_queue_push_ok:
  assumes "queue_ok q"
  shows "raw_queue_push q m =
     Some (q\<lparr>q_head_idx :=
             (if queue_size q = q_capacity q - 1
              then (q_head_idx q + 1) mod q_capacity q else q_head_idx q),
           q_buffer := (q_buffer q)[q_tail_idx q := m],
           q_tail_idx := (q_tail_idx q + 1) mod q_capacity q\<rparr>)"
proof -
  from assms have c: "2 \<le> q_capacity q" "q_capacity q < 2 ^ 32"
    and h: "q_head_idx q < q_capacity q" and t: "q_tail_idx q < q_capacity q"
    by (simp_all add: queue_ok_def)
  have ut: "u32 (Suc (q_tail_idx q)) = Suc (q_tail_idx q)"
    using c t by (intro u32_id) linarith
  have full: "(queue_size q = q_capacity q - 1) = ((q_tail_idx q + 1) mod q_capacity q = q_head_idx q)"
    using c h t by (auto simp: queue_size_def mod_wrap split: if_splits)
  show ?thesis
    using full by (auto simp: raw_queue_push_def drop_oldest_ok [OF assms] ut)
qed

lemma queue_contents_push:
  assumes "queue_ok q" and "raw_queue_push q m = Some q'"
  shows "queue_ok q' \<and>
     queue_contents q' =
       (if queue_size q = q_capacity q - 1 then tl (queue_contents q) else queue_contents q) @ [m]"
proof -
  let ?c = "q_capacity q" and ?h = "q_head_idx q" and ?t = "q_tail_idx q"
  let ?buf = "q_buffer q" and ?n = "queue_size q"
  from assms(1) have c: "2 \<le> ?c" "?c < 2 ^ 32" and len: "length ?buf = ?c"
    and h: "?h < ?c" and t: "?t < ?c"
    by (simp_all add: queue_ok_def)
  have pos: "0 < ?c" using c by linarith
  have n: "?n = (?t + ?c - ?h) mod ?c" by (simp add: queue_size_def)
  have nlt: "?n < ?c" using pos by (simp add: queue_size_def)
  have tail: "(?h + ?n) mod ?c = ?t"
    unfolding n using h t by (rule ring_idx_tail)
  have q': "q' = q\<lparr>q_head_idx :=
             (if ?n = ?c - 1 then (?h + 1) mod ?c else ?h),
           q_buffer := ?buf[?t := m],
           q_tail_idx := (?t + 1) mod ?c\<rparr>"
    using assms(2) by (simp add: raw_queue_push_ok [OF assms(1)])
  have ok: "queue_ok q'"
    using c h t pos len by (simp add: q' queue_ok_def)
  have buf': "q_buffer q' = ?buf[?t := m]" and cap': "q_capacity q' = ?c"
    by (simp_all add: q')
  have sz0: "queue_size q' = (Suc ?t mod ?c + ?c - q_head_idx q') mod ?c"
    by (simp add: q' queue_size_def)
  have cont: "queue_contents q' = ring_list (?buf[?t := m]) ?c (q_head_idx q') (queue_size q')"
    by (simp only: queue_contents_def buf' cap')
  show ?thesis
  proof (cases "?n = ?c - 1")
    case False
    have hd': "q_head_idx q' = ?h" using False by (simp add: q')
    have "Suc ?t mod ?c \<noteq> ?h"
      using ring_full_iff [OF h t] n False by simp
    then have "(Suc ?t mod ?c + ?c - ?h) mod ?c = Suc ((?t + ?c - ?h) mod ?c)"
      using h t by (intro ring_size_snoc)
    then have sz': "queue_size q' = Suc ?n"
      by (simp only: sz0 hd' n)
    have "Suc ?n < ?c \<or> Suc ?n = ?c" using nlt by linarith
    then have lt: "?n < ?c" by linarith
    have "queue_contents q' = ring_list (?buf[(?h + ?n) mod ?c := m]) ?c ?h (Suc ?n)"
      by (simp only: cont hd' sz' tail)
    also have "\<dots> = ring_list ?buf ?c ?h ?n @ [m]"
      using lt len by (rule ring_list_snoc)
    finally have "queue_contents q' = queue_contents q @ [m]"
      by (simp only: queue_contents_def)
    with False ok show ?thesis by simp
  next
    case True
    let ?h' = "Suc ?h mod ?c"
    have hd': "q_head_idx q' = ?h'" using True by (simp add: q')
    have full: "Suc ?t mod ?c = ?h"
      using ring_full_iff [OF h t] n True by simp
    have h': "?h' < ?c" using pos by simp
    have npos: "0 < (?t + ?c - ?h) mod ?c"
      using True c n by linarith
    have drop: "(?t + ?c - ?h') mod ?c = ?n - 1"
      unfolding n using h t npos by (rule ring_size_drop)
    have tail': "(?h' + (?n - 1)) mod ?c = ?t"
      using ring_idx_tail [OF h' t] by (simp only: drop)
    have "(Suc ?t mod ?c + ?c - ?h') mod ?c = ?c - 1"
      using h t full by (rule ring_size_evict)
    also have "?c - 1 = Suc (?n - 1)" using True c by linarith
    finally have sz': "queue_size q' = Suc (?n - 1)"
      by (simp only: sz0 hd')
    have lt: "?n - 1 < ?c" using nlt by linarith
    have "queue_contents q' = ring_list (?buf[(?h' + (?n - 1)) mod ?c := m]) ?c ?h' (Suc (?n - 1))"
      by (simp only: cont hd' sz' tail')
    also have "\<dots> = ring_list ?buf ?c ?h' (?n - 1) @ [m]"
      using lt len by (rule ring_list_snoc)
    also have "ring_list ?buf ?c ?h' (?n - 1) = tl (ring_list ?buf ?c ?h ?n)"
      by (rule ring_list_tl)
    finally have "queue_contents q' = tl (queue_contents q) @ [m]"
      by (simp only: queue_contents_def)
    with True ok show ?thesis by simp
  qed
qed

lemma replicate_4: "replicate 4 x = [x, x, x, x]"
  by (simp add: numeral_eq_Suc)

lemma scenario_s3:
  fixes z :: "'d raw_trade_message"
  defines "q5 \<equiv> \<lparr>q_buffer = [numbered z 5, numbered z 2, numbered z 3, numbered z 4],
     q_capacity = 4, q_head_idx = 2, q_tail_idx = 1\<rparr>"
  shows "push_all (raw_queue_init z 4)
       [numbered z 1, numbered z 2, numbered z 3, numbered z 4, numbered z 5] = Some q5"
    and "queue_contents q5 = [numbered z 3, numbered z 4, numbered z 5]"
    and "raw_queue_pop False q5 = Popped (numbered z 3) (q5\<lparr>q_head_idx := 3\<rparr>)"
    and "raw_queue_pop False (q5\<lparr>q_head_idx := 3\<rparr>) =
           Popped (numbered z 4) (q5\<lparr>q_head_idx := 0\<rparr>)"
    and "raw_queue_pop False (q5\<lparr>q_head_idx := 0\<rparr>) =
           Popped (numbered z 5) (q5\<lparr>q_head_idx := 1\<rparr>)"
    and "raw_queue_pop False (q5\<lparr>q_head_idx := 1\<rparr>) = Waits"
  by (simp_all add: q5_def raw_queue_init_def raw_queue_push_def drop_oldest.simps u32_def
      raw_queue_pop_def queue_contents_def queue_size_def ring_list_def upt_rec
      replicate_4)

text \<open>
  C3. \<open>raw_queue_push\<close> on a well-formed ring always returns: the new message is
  stored at the old tail, and when the ring was full (it held capacity - 1 messages)
  the head has advanced by one slot, which drops exactly the oldest message. In
  scenario S3 (Q = 4, messages 1 to 5, no pop in between) the ring then holds
  messages 3, 4, 5, and the consumer pops them in that order before it has to wait.
\<close>

theorem raw_queue_push_drops_oldest:
  "(\<forall>(q :: 'd raw_trade_queue) m. queue_ok q \<longrightarrow>
      (\<exists>q'. raw_queue_push q m = Some q' \<and> queue_ok q' \<and>
         q_buffer q' ! q_tail_idx q = m \<and>
         q_head_idx q' =
           (if queue_size q = q_capacity q - 1 then (q_head_idx q + 1) mod q_capacity q
            else q_head_idx q) \<and>
         queue_contents q' =
           (if queue_size q = q_capacity q - 1 then tl (queue_contents q)
            else queue_contents q) @ [m])) \<and>
   (\<exists>q5 q6 q7 q8.
      push_all (raw_queue_init (z :: 'd raw_trade_message) 4)
        [numbered z 1, numbered z 2, numbered z 3, numbered z 4, numbered z 5] = Some q5 \<and>
      queue_contents q5 = [numbered z 3, numbered z 4, numbered z 5] \<and>
      raw_queue_pop False q5 = Popped (numbered z 3) q6 \<and>
      raw_queue_pop False q6 = Popped (numbered z 4) q7 \<and>
      raw_queue_pop False q7 = Popped (numbered z 5) q8 \<and>
      raw_queue_pop False q8 = Waits)"
proof (intro conjI allI impI)
  fix q :: "'d raw_trade_queue" and m
  assume ok: "queue_ok q"
  let ?q' = "q\<lparr>q_head_idx :=
             (if queue_size q = q_capacity q - 1
              then (q_head_idx q + 1) mod q_capacity q else q_head_idx q),
           q_buffer := (q_buffer q)[q_tail_idx q := m],
           q_tail_idx := (q_tail_idx q + 1) mod q_capacity q\<rparr>"
  have push: "raw_queue_push q m = Some ?q'"
    using ok by (rule raw_queue_push_ok)
  have "q_tail_idx q < length (q_buffer q)"
    using ok by (simp add: queue_ok_def)
  then have "q_buffer ?q' ! q_tail_idx q = m" by simp
  moreover have "q_head_idx ?q' =
           (if queue_size q = q_capacity q - 1 then (q_head_idx q + 1) mod q_capacity q
            else q_head_idx q)" by simp
  ultimately show "\<exists>q'. raw_queue_push q m = Some q' \<and> queue_ok q' \<and>
         q_buffer q' ! q_tail_idx q = m \<and>
         q_head_idx q' =
           (if queue_size q = q_capacity q - 1 then (q_head_idx q + 1) mod q_capacity q
            else q_head_idx q) \<and>
         queue_contents q' =
           (if queue_size q = q_capacity q - 1 then tl (queue_contents q)
            else queue_contents q) @ [m]"
    using queue_contents_push [OF ok push] push by blast
next
  show "\<exists>q5 q6 q7 q8.
      push_all (raw_queue_init z 4)
        [numbered z 1, numbered z 2, numbered z 3, numbered z 4, numbered z 5] = Some q5 \<and>
      queue_contents q5 = [numbered z 3, numbered z 4, numbered z 5] \<and>
      raw_queue_pop False q5 = Popped (numbered z 3) q6 \<and>
      raw_queue_pop False q6 = Popped (numbered z 4) q7 \<and>
      raw_queue_pop False q7 = Popped (numbered z 5) q8 \<and>
      raw_queue_pop False q8 = Waits"
    using scenario_s3 [of z] by blast
qed

theorem raw_queue_push_drops_oldest_witness:
  "queue_ok (raw_queue_init zero_unit_message 4) \<and>
   (\<exists>q'. raw_queue_push (raw_queue_init zero_unit_message 4) (numbered zero_unit_message 1) = Some q' \<and>
      queue_ok q' \<and> queue_contents q' = [numbered zero_unit_message 1])"
proof -
  have ok: "queue_ok (raw_queue_init zero_unit_message 4)"
    by (simp add: queue_ok_def raw_queue_init_def)
  have e: "queue_contents (raw_queue_init zero_unit_message 4) = []"
    by (simp add: queue_contents_def queue_size_def raw_queue_init_def ring_list_def)
  have s: "queue_size (raw_queue_init zero_unit_message 4) \<noteq>
      q_capacity (raw_queue_init zero_unit_message 4) - 1"
    by (simp add: queue_size_def raw_queue_init_def)
  show ?thesis
    using raw_queue_push_drops_oldest [where 'd = unit, THEN conjunct1, rule_format, OF ok,
        of "numbered zero_unit_message 1"] ok e s
    by auto
qed

section \<open>The scheduler's minute alignment\<close>

lemma sdiv_nonneg: "0 \<le> a \<Longrightarrow> 0 < b \<Longrightarrow> a sdiv b = a div (b::int)"
  by (simp add: signed_divide_int_def sgn_if)

lemma next_multiple_after:
  assumes "0 < p"
  shows "least_multiple_after p t ((t div p + 1) * p)"
  unfolding least_multiple_after_def
proof (intro conjI allI impI)
  show "p dvd (t div p + 1) * p" by simp
  have a: "t div p * p + t mod p = t" by (rule div_mult_mod_eq)
  have b: "t mod p < p" using assms by simp
  have c: "(t div p + 1) * p = t div p * p + p" by (simp add: distrib_right)
  show "t < (t div p + 1) * p" using a b c by linarith
next
  fix m assume m: "p dvd m \<and> t < m"
  then obtain k where k: "m = p * k" by (auto elim: dvdE)
  have "t div p < k"
  proof (rule ccontr)
    assume "\<not> t div p < k"
    then have "k \<le> t div p" by simp
    then have "p * k \<le> p * (t div p)" using assms by simp
    also have "\<dots> \<le> t" using assms
      by (metis mult.commute div_mult_mod_eq add_increasing2 order_refl pos_mod_sign)
    finally show False using m k by simp
  qed
  then have "t div p + 1 \<le> k" by simp
  then have "(t div p + 1) * p \<le> k * p" using assms by (intro mult_right_mono) simp_all
  then show "(t div p + 1) * p \<le> m" using k by (simp add: mult.commute)
qed

text \<open>
  C4 (as the code has it). For every non-negative clock reading the first
  \<open>scheduled_time_ns\<close> is the smallest multiple of the 60 s period that is strictly
  greater than the reading, at most one period away; a reading that lies exactly on
  a minute multiple is scheduled one whole period later.
\<close>

theorem initial_schedule_strictly_after:
  assumes "0 \<le> now_ns"
  shows "least_multiple_after PERIOD_NS now_ns (initial_scheduled_time_ns now_ns) \<and>
         initial_scheduled_time_ns now_ns \<le> now_ns + PERIOD_NS \<and>
         (PERIOD_NS dvd now_ns \<longrightarrow> initial_scheduled_time_ns now_ns = now_ns + PERIOD_NS)"
proof -
  have p: "0 < PERIOD_NS" by (simp add: PERIOD_NS_def NS_PER_MS_def)
  have s: "initial_scheduled_time_ns now_ns = (now_ns div PERIOD_NS + 1) * PERIOD_NS"
    using assms p by (simp add: initial_scheduled_time_ns_def sdiv_nonneg)
  have le: "now_ns div PERIOD_NS * PERIOD_NS \<le> now_ns"
    using p by (metis div_mult_mod_eq add_increasing2 order_refl pos_mod_sign)
  have "(now_ns div PERIOD_NS + 1) * PERIOD_NS = now_ns div PERIOD_NS * PERIOD_NS + PERIOD_NS"
    by (simp add: algebra_simps)
  with le have "(now_ns div PERIOD_NS + 1) * PERIOD_NS \<le> now_ns + PERIOD_NS" by linarith
  moreover have "(now_ns div PERIOD_NS + 1) * PERIOD_NS = now_ns + PERIOD_NS" if "PERIOD_NS dvd now_ns"
    using that by (simp add: algebra_simps)
  ultimately show ?thesis
    using next_multiple_after [OF p, of now_ns] by (simp add: s)
qed

theorem initial_schedule_strictly_after_witness:
  "(0::int) \<le> 90000000000 \<and> initial_scheduled_time_ns 90000000000 = 120000000000 \<and>
   least_multiple_after PERIOD_NS 90000000000 120000000000"
proof -
  have e: "initial_scheduled_time_ns 90000000000 = 120000000000"
    by (simp add: initial_scheduled_time_ns_def PERIOD_NS_def NS_PER_MS_def)
  show ?thesis
    using initial_schedule_strictly_after [of 90000000000] by (simp add: e)
qed

text \<open>
  At a reading of exactly one minute the first tick is not the smallest multiple
  not less than the reading: that multiple is the reading itself.
\<close>

theorem initial_schedule_on_minute_counterexample:
  "\<not> least_multiple_from PERIOD_NS 60000000000 (initial_scheduled_time_ns 60000000000)"
proof
  assume "least_multiple_from PERIOD_NS 60000000000 (initial_scheduled_time_ns 60000000000)"
  then have "\<forall>m. PERIOD_NS dvd m \<and> 60000000000 \<le> m \<longrightarrow> initial_scheduled_time_ns 60000000000 \<le> m"
    by (simp add: least_multiple_from_def)
  then have "PERIOD_NS dvd 60000000000 \<and> (60000000000::int) \<le> 60000000000 \<longrightarrow>
      initial_scheduled_time_ns 60000000000 \<le> 60000000000"
    by (rule spec)
  then show False
    by (simp add: initial_scheduled_time_ns_def PERIOD_NS_def NS_PER_MS_def)
qed

section \<open>The sliding window\<close>

lemma u32_dec: "0 < n \<Longrightarrow> n < 2 ^ 32 \<Longrightarrow> u32 (n + (2 ^ 32 - 1)) = n - 1"
proof -
  assume a: "0 < n" "n < 2 ^ 32"
  have "n + (2 ^ 32 - 1) = (n - 1) + 2 ^ 32" using a by simp
  then have "(n + (2 ^ 32 - 1)) mod 2 ^ 32 = (n - 1) mod 2 ^ 32"
    by (simp only: mod_add_self2)
  also have "\<dots> = n - 1" using a by (intro mod_less) linarith
  finally show ?thesis by (simp only: u32_def)
qed

lemma window_okD:
  assumes "window_ok w"
  shows "sw_capacity w = length (sw_buffer w)" and "0 < sw_capacity w"
    and "sw_capacity w < 2 ^ 32" and "sw_head_idx w < sw_capacity w"
    and "sw_size w \<le> sw_capacity w"
    and "sw_tail_idx w = (sw_head_idx w + sw_size w) mod sw_capacity w"
  using assms unfolding window_ok_def by blast+

lemma live_length [simp]: "length (live w) = sw_size w"
  by (simp add: live_def)

lemma live_hd:
  assumes "window_ok w" "0 < sw_size w"
  shows "sw_buffer w ! sw_head_idx w = hd (live w)"
proof -
  have "live w ! 0 = sw_buffer w ! ((sw_head_idx w + 0) mod sw_capacity w)"
    unfolding live_def using assms(2) by (rule ring_list_nth)
  moreover have "sw_head_idx w mod sw_capacity w = sw_head_idx w"
    using window_okD(4) [OF assms(1)] by simp
  moreover have "live w \<noteq> []" using assms(2) by (simp add: live_def ring_list_def)
  ultimately show ?thesis by (simp add: hd_conv_nth)
qed

lemma evict_head_fields:
  assumes "window_ok w" "0 < sw_size w"
  shows "sw_head_idx (evict_head w) = Suc (sw_head_idx w) mod sw_capacity w"
    and "sw_size (evict_head w) = sw_size w - 1"
    and "sw_buffer (evict_head w) = sw_buffer w"
    and "sw_capacity (evict_head w) = sw_capacity w"
    and "sw_tail_idx (evict_head w) = sw_tail_idx w"
    and "sum_price_volume (evict_head w) = sum_price_volume w - price (hd (live w)) * size_pt (hd (live w))"
    and "sum_volume (evict_head w) = sum_volume w - size_pt (hd (live w))"
proof -
  note c = window_okD(3) [OF assms(1)] and h = window_okD(4) [OF assms(1)]
    and n = window_okD(5) [OF assms(1)]
  have "Suc (sw_head_idx w) < 2 ^ 32" using c h by linarith
  then have uh: "u32 (Suc (sw_head_idx w)) = Suc (sw_head_idx w)" by (rule u32_id)
  have "sw_size w < 2 ^ 32" using c n by linarith
  then have un: "u32 (sw_size w + (2 ^ 32 - 1)) = sw_size w - 1"
    using assms(2) by (intro u32_dec)
  show "sw_head_idx (evict_head w) = Suc (sw_head_idx w) mod sw_capacity w"
    by (simp add: evict_head_def uh)
  show "sw_size (evict_head w) = sw_size w - 1"
    using un by (simp add: evict_head_def)
  show "sw_buffer (evict_head w) = sw_buffer w" "sw_capacity (evict_head w) = sw_capacity w"
    "sw_tail_idx (evict_head w) = sw_tail_idx w"
    by (simp_all add: evict_head_def)
  show "sum_price_volume (evict_head w) = sum_price_volume w - price (hd (live w)) * size_pt (hd (live w))"
    "sum_volume (evict_head w) = sum_volume w - size_pt (hd (live w))"
    by (simp_all add: evict_head_def live_hd [OF assms])
qed

lemma evict_head_ok:
  assumes "window_ok w" "0 < sw_size w"
  shows "window_ok (evict_head w)" and "live (evict_head w) = tl (live w)"
proof -
  note f = evict_head_fields [OF assms]
  note c = window_okD(2,3,1) [OF assms(1)] and n = window_okD(5) [OF assms(1)]
    and t = window_okD(6) [OF assms(1)]
  have "(Suc (sw_head_idx w) mod sw_capacity w + (sw_size w - 1)) mod sw_capacity w
      = (Suc (sw_head_idx w) + (sw_size w - 1)) mod sw_capacity w"
    by (rule mod_add_left_eq)
  also have "Suc (sw_head_idx w) + (sw_size w - 1) = sw_head_idx w + sw_size w"
    using assms(2) by linarith
  finally have tail: "sw_tail_idx w =
      (Suc (sw_head_idx w) mod sw_capacity w + (sw_size w - 1)) mod sw_capacity w"
    by (simp only: t)
  have "sw_size w - 1 \<le> sw_capacity w" using n by linarith
  then show "window_ok (evict_head w)"
    unfolding window_ok_def f using c tail by simp
  show "live (evict_head w) = tl (live w)"
    unfolding live_def f by (rule ring_list_tl)
qed

lemma prune_expired_ok:
  assumes "window_ok w"
  shows "window_ok (prune_expired cutoff w) \<and>
         live (prune_expired cutoff w) = dropWhile (\<lambda>t. trade_ts_ms t < cutoff) (live w)"
  using assms
proof (induction cutoff w rule: prune_expired.induct)
  case (1 cutoff w)
  show ?case
  proof (cases "0 < sw_size w \<and> trade_ts_ms (sw_buffer w ! sw_head_idx w) < cutoff")
    case True
    then have pos: "0 < sw_size w" and old: "trade_ts_ms (hd (live w)) < cutoff"
      using live_hd [OF "1.prems"] by simp_all
    have ne: "live w \<noteq> []" using pos by (simp add: live_def ring_list_def)
    have ok: "window_ok (evict_head w)" and l: "live (evict_head w) = tl (live w)"
      using evict_head_ok [OF "1.prems" pos] by simp_all
    have "dropWhile (\<lambda>t. trade_ts_ms t < cutoff) (live w) =
          dropWhile (\<lambda>t. trade_ts_ms t < cutoff) (tl (live w))"
      using ne old by (cases "live w") simp_all
    moreover have "prune_expired cutoff w = prune_expired cutoff (evict_head w)"
      using True by (subst prune_expired.simps) simp
    ultimately show ?thesis
      using "1.IH" [OF True ok] l by simp
  next
    case False
    have p: "prune_expired cutoff w = w"
      by (subst prune_expired.simps) (simp only: False if_False)
    have "dropWhile (\<lambda>t. trade_ts_ms t < cutoff) (live w) = live w"
    proof (cases "live w")
      case Nil
      then show ?thesis by simp
    next
      case (Cons a l)
      then have "0 < sw_size w" by (metis live_length length_greater_0_conv list.distinct(1))
      then have "\<not> trade_ts_ms (hd (live w)) < cutoff"
        using False live_hd [OF "1.prems"] by simp
      then show ?thesis using Cons by simp
    qed
    then show ?thesis using p "1.prems" by simp
  qed
qed

lemma evict_if_full_ok:
  assumes "window_ok w"
  shows "window_ok (evict_if_full w)"
    and "live (evict_if_full w) = (if sw_size w = sw_capacity w then tl (live w) else live w)"
    and "sw_size (evict_if_full w) < sw_capacity (evict_if_full w)"
proof -
  have cap: "sw_capacity (evict_if_full w) = sw_capacity w"
    by (simp add: evict_if_full_def evict_head_def)
  note c = window_okD(2) [OF assms] and n = window_okD(5) [OF assms]
  show "window_ok (evict_if_full w)"
    using assms c evict_head_ok(1) [OF assms] by (simp add: evict_if_full_def)
  show "live (evict_if_full w) = (if sw_size w = sw_capacity w then tl (live w) else live w)"
    using c evict_head_ok(2) [OF assms] by (simp add: evict_if_full_def)
  have "sw_size (evict_if_full w) < sw_capacity w"
  proof (cases "sw_size w = sw_capacity w")
    case True
    then have "0 < sw_size w" using c by simp
    then have "sw_size (evict_head w) = sw_size w - 1"
      using assms by (intro evict_head_fields)
    then show ?thesis using True c by (simp add: evict_if_full_def)
  next
    case False
    then show ?thesis using n by (simp add: evict_if_full_def)
  qed
  then show "sw_size (evict_if_full w) < sw_capacity (evict_if_full w)"
    by (simp only: cap)
qed

lemma append_trade_ok:
  assumes "window_ok w" "sw_size w < sw_capacity w"
  shows "window_ok (append_trade w ts p s)"
    and "live (append_trade w ts p s) = live w @ [\<lparr>trade_ts_ms = ts, price = p, size_pt = s\<rparr>]"
proof -
  let ?c = "sw_capacity w" and ?h = "sw_head_idx w" and ?n = "sw_size w"
  note c = window_okD(2,3) [OF assms(1)] and len = window_okD(1) [OF assms(1), symmetric]
    and h = window_okD(4) [OF assms(1)] and t = window_okD(6) [OF assms(1)]
  have "sw_tail_idx w < ?c" using c t by simp
  then have "Suc (sw_tail_idx w) < 2 ^ 32" using c by linarith
  then have ut: "u32 (Suc (sw_tail_idx w)) = Suc (sw_tail_idx w)" by (rule u32_id)
  have "Suc ?n < 2 ^ 32" using assms(2) c by linarith
  then have un: "u32 (Suc ?n) = Suc ?n" by (rule u32_id)
  have tail: "Suc (sw_tail_idx w) mod ?c = (?h + Suc ?n) mod ?c"
    unfolding t by (simp add: mod_Suc_eq)
  have f: "sw_buffer (append_trade w ts p s) =
        (sw_buffer w)[(?h + ?n) mod ?c := \<lparr>trade_ts_ms = ts, price = p, size_pt = s\<rparr>]"
      "sw_capacity (append_trade w ts p s) = ?c" "sw_head_idx (append_trade w ts p s) = ?h"
      "sw_size (append_trade w ts p s) = Suc ?n"
      "sw_tail_idx (append_trade w ts p s) = (?h + Suc ?n) mod ?c"
    using ut un tail t by (simp_all add: append_trade_def)
  show "window_ok (append_trade w ts p s)"
    unfolding window_ok_def f using c h len assms(2) by simp
  show "live (append_trade w ts p s) = live w @ [\<lparr>trade_ts_ms = ts, price = p, size_pt = s\<rparr>]"
    unfolding live_def f using assms(2) len by (rule ring_list_snoc)
qed

lemma add_trade_live:
  assumes "window_ok w"
  shows "window_ok (sliding_window_add_trade w ts p s)"
    and "live (sliding_window_add_trade w ts p s) =
           drop (if sw_size (prune_expired (ts - WINDOW_MS) w) =
                    sw_capacity (prune_expired (ts - WINDOW_MS) w) then 1 else 0)
             (dropWhile (\<lambda>t. trade_ts_ms t < ts - WINDOW_MS) (live w)) @
           [\<lparr>trade_ts_ms = ts, price = p, size_pt = s\<rparr>]"
proof -
  let ?w1 = "prune_expired (ts - WINDOW_MS) w"
  let ?w2 = "evict_if_full ?w1"
  have ok1: "window_ok ?w1"
    and l1: "live ?w1 = dropWhile (\<lambda>t. trade_ts_ms t < ts - WINDOW_MS) (live w)"
    using prune_expired_ok [OF assms] by simp_all
  note e = evict_if_full_ok [OF ok1]
  note a = append_trade_ok [OF e(1) e(3)]
  show "window_ok (sliding_window_add_trade w ts p s)"
    using a(1) by (simp add: sliding_window_add_trade_def)
  have "live ?w2 = drop (if sw_size ?w1 = sw_capacity ?w1 then 1 else 0) (live ?w1)"
    using e(2) by (simp add: drop_Suc)
  then show "live (sliding_window_add_trade w ts p s) =
           drop (if sw_size ?w1 = sw_capacity ?w1 then 1 else 0)
             (dropWhile (\<lambda>t. trade_ts_ms t < ts - WINDOW_MS) (live w)) @
           [\<lparr>trade_ts_ms = ts, price = p, size_pt = s\<rparr>]"
    using a(2) l1 by (simp add: sliding_window_add_trade_def)
qed

lemma dropWhile_sorted_ge:
  assumes "sorted (map f l)"
  shows "\<forall>t \<in> set (dropWhile (\<lambda>t. f t < c) l). (c::int) \<le> f t"
  using assms
proof (induction l)
  case Nil
  then show ?case by simp
next
  case (Cons a l)
  show ?case
  proof (cases "f a < c")
    case True
    then show ?thesis using Cons by simp
  next
    case False
    then have "\<forall>t \<in> set (a # l). c \<le> f t"
      using Cons.prems by auto
    then show ?thesis using False by simp
  qed
qed

lemma sorted_map_dropWhile:
  "sorted (map f l) \<Longrightarrow> sorted (map (f :: 'b \<Rightarrow> int) (dropWhile P l))"
  by (induction l) auto

lemma add_trade_chronological:
  assumes ok: "window_ok w" and chrono: "chronological w"
    and newest: "\<forall>t \<in> set (live w). trade_ts_ms t \<le> ts"
  shows "chronological (sliding_window_add_trade w ts p s)"
    and "within_window (sliding_window_add_trade w ts p s)"
    and "last (live (sliding_window_add_trade w ts p s)) = \<lparr>trade_ts_ms = ts, price = p, size_pt = s\<rparr>"
    and "\<forall>t \<in> set (live (sliding_window_add_trade w ts p s)). trade_ts_ms t \<le> ts"
proof -
  let ?P = "\<lambda>t. trade_ts_ms t < ts - WINDOW_MS"
  let ?new = "\<lparr>trade_ts_ms = ts, price = p, size_pt = s\<rparr>"
  obtain k where l: "live (sliding_window_add_trade w ts p s) = drop k (dropWhile ?P (live w)) @ [?new]"
    using add_trade_live(2) [OF ok] by blast
  let ?old = "drop k (dropWhile ?P (live w))"
  have sub: "set ?old \<subseteq> set (dropWhile ?P (live w))" by (rule set_drop_subset)
  have sub2: "set (dropWhile ?P (live w)) \<subseteq> set (live w)" by (rule set_dropWhileD [THEN subsetI])
  have s0: "sorted (map trade_ts_ms (live w))" using chrono by (simp add: chronological_def)
  have "sorted (map trade_ts_ms (dropWhile ?P (live w)))"
    using s0 by (rule sorted_map_dropWhile)
  then have s1: "sorted (map trade_ts_ms ?old)"
    by (simp add: drop_map [symmetric] sorted_wrt_drop)
  have le: "\<forall>t \<in> set ?old. trade_ts_ms t \<le> ts" using sub sub2 newest by blast
  show "chronological (sliding_window_add_trade w ts p s)"
    using s1 le by (simp add: chronological_def l sorted_append)
  show "last (live (sliding_window_add_trade w ts p s)) = ?new"
    by (simp add: l)
  have w: "0 \<le> WINDOW_MS" by (simp add: WINDOW_MS_def WINDOW_MINUTES_def)
  have "\<forall>t \<in> set ?old. ts - WINDOW_MS \<le> trade_ts_ms t"
    using dropWhile_sorted_ge [OF s0, of "ts - WINDOW_MS"] sub by blast
  then show "within_window (sliding_window_add_trade w ts p s)"
    using w by (simp add: within_window_def l)
  show "\<forall>t \<in> set (live (sliding_window_add_trade w ts p s)). trade_ts_ms t \<le> ts"
    using le by (simp add: l)
qed

lemma add_trades_invariants:
  assumes "window_ok w" "chronological w" "sorted (map fst trades)"
    and "\<forall>t \<in> set (live w). \<forall>c \<in> set trades. trade_ts_ms t \<le> fst c"
    and "0 < n" "n \<le> length trades"
  shows "window_ok (add_trades w (take n trades)) \<and>
         chronological (add_trades w (take n trades)) \<and>
         within_window (add_trades w (take n trades)) \<and>
         trade_ts_ms (last (live (add_trades w (take n trades)))) = fst (trades ! (n - 1))"
  using assms
proof (induction trades arbitrary: w n)
  case Nil
  then show ?case by simp
next
  case (Cons c rest)
  obtain ts p s where c: "c = (ts, p, s)" by (cases c)
  let ?w = "sliding_window_add_trade w ts p s"
  have newest: "\<forall>t \<in> set (live w). trade_ts_ms t \<le> ts"
    using Cons.prems(4) c by simp
  note step = add_trade_live(1) [OF Cons.prems(1), of ts p s]
    add_trade_chronological [OF Cons.prems(1) Cons.prems(2) newest, of p s]
  show ?case
  proof (cases "n = 1")
    case True
    then show ?thesis using step c by simp
  next
    case False
    then obtain m where n: "n = Suc m" and m: "0 < m" "m \<le> length rest"
      using Cons.prems(5,6) by (cases n) auto
    have sorted: "sorted (map fst rest)" and ge: "\<forall>d \<in> set rest. ts \<le> fst d"
      using Cons.prems(3) c by auto
    have "\<forall>t \<in> set (live ?w). \<forall>d \<in> set rest. trade_ts_ms t \<le> fst d"
      using step(5) ge by fastforce
    from Cons.IH [OF step(1) step(2) sorted this m]
    show ?thesis using m by (simp add: n c)
  qed
qed

lemma foldl_add_sum_list:
  fixes f :: "'t \<Rightarrow> 'b::monoid_add"
  shows "foldl (\<lambda>acc t. acc + f t) a l = a + sum_list (map f l)"
  by (induction l arbitrary: a) (simp_all add: add.assoc)

lemma naive_tl:
  fixes f :: "'t \<Rightarrow> 'b::ab_group_add"
  assumes "l \<noteq> []"
  shows "foldl (\<lambda>acc t. acc + f t) 0 (tl l) = foldl (\<lambda>acc t. acc + f t) 0 l - f (hd l)"
  using assms by (cases l) (simp_all add: foldl_add_sum_list)

lemma evict_head_sums:
  fixes w :: "'b::ring sliding_window"
  assumes "window_ok w" "0 < sw_size w" "sums_exact w"
  shows "sums_exact (evict_head w)"
proof -
  have ne: "live w \<noteq> []" using assms(2) by (simp add: live_def ring_list_def)
  note f = evict_head_fields(6,7) [OF assms(1,2)] and l = evict_head_ok(2) [OF assms(1,2)]
  show ?thesis
    using assms(3)
    by (simp add: sums_exact_def naive_sum_pv_def naive_sum_v_def f l naive_tl [OF ne])
qed

lemma prune_expired_sums:
  fixes w :: "'b::ring sliding_window"
  assumes "window_ok w" "sums_exact w"
  shows "sums_exact (prune_expired cutoff w)"
  using assms
proof (induction cutoff w rule: prune_expired.induct)
  case (1 cutoff w)
  show ?case
  proof (cases "0 < sw_size w \<and> trade_ts_ms (sw_buffer w ! sw_head_idx w) < cutoff")
    case True
    then have pos: "0 < sw_size w" by simp
    have "prune_expired cutoff w = prune_expired cutoff (evict_head w)"
      using True by (subst prune_expired.simps) simp
    then show ?thesis
      using "1.IH" [OF True evict_head_ok(1) [OF "1.prems"(1) pos]
          evict_head_sums [OF "1.prems"(1) pos "1.prems"(2)]]
      by simp
  next
    case False
    have "prune_expired cutoff w = w"
      by (subst prune_expired.simps) (simp only: False if_False)
    then show ?thesis using "1.prems" by simp
  qed
qed

lemma evict_if_full_sums:
  fixes w :: "'b::ring sliding_window"
  assumes "window_ok w" "sums_exact w"
  shows "sums_exact (evict_if_full w)"
proof (cases "sw_size w = sw_capacity w")
  case True
  then have "0 < sw_size w" using window_okD(2) [OF assms(1)] by simp
  then show ?thesis
    using True evict_head_sums [OF assms(1) _ assms(2)] by (simp add: evict_if_full_def)
next
  case False
  then show ?thesis using assms(2) by (simp add: evict_if_full_def)
qed

lemma append_trade_sums:
  fixes w :: "'b::ring sliding_window"
  assumes "window_ok w" "sw_size w < sw_capacity w" "sums_exact w"
  shows "sums_exact (append_trade w ts p s)"
proof -
  have "sum_price_volume (append_trade w ts p s) = sum_price_volume w + p * s"
    "sum_volume (append_trade w ts p s) = sum_volume w + s"
    by (simp_all add: append_trade_def)
  then show ?thesis
    using assms(3)
    by (simp add: sums_exact_def naive_sum_pv_def naive_sum_v_def append_trade_ok(2) [OF assms(1,2)])
qed

lemma add_trade_sums:
  fixes w :: "'b::ring sliding_window"
  assumes "window_ok w" "sums_exact w"
  shows "sums_exact (sliding_window_add_trade w ts p s)"
proof -
  let ?w1 = "prune_expired (ts - WINDOW_MS) w"
  have ok1: "window_ok ?w1" using prune_expired_ok [OF assms(1)] by simp
  note e = evict_if_full_ok [OF ok1]
  have "sums_exact (evict_if_full ?w1)"
    using ok1 prune_expired_sums [OF assms] by (rule evict_if_full_sums)
  with e(1) e(3) show ?thesis
    unfolding sliding_window_add_trade_def by (rule append_trade_sums)
qed

lemma add_trades_sums:
  fixes w :: "'b::ring sliding_window"
  assumes "window_ok w" "sums_exact w"
  shows "window_ok (add_trades w trades) \<and> sums_exact (add_trades w trades)"
  using assms
proof (induction trades arbitrary: w)
  case Nil
  then show ?case by simp
next
  case (Cons c rest)
  obtain ts p s where c: "c = (ts, p, s)" by (cases c)
  show ?case
    using Cons.IH [OF add_trade_live(1) [OF Cons.prems(1)] add_trade_sums [OF Cons.prems]]
    by (simp add: c)
qed

text \<open>The equations that evaluate the double arithmetic and the window on given inputs.\<close>

lemmas double_eval =
  zero_double_def plus_double_def minus_double_def uminus_double_def times_double_def
  divide_double_def less_double_def less_eq_double_def
  dsub_def d_of_int_def add_aligned_def div_scaled_def div_fin_def
  sqrt_root_def sqrt_scaled_def sqrt_fin_def isqrt_step_def isqrt.simps
  less_aligned_def eq_aligned_def
  round_dy_def round_at_def round_shift_def round_pick_def round_carry_def pack_def nbits.simps

lemmas window_eval =
  window_of_capacity_def sliding_window_add_trade_def prune_expired.simps evict_if_full_def
  evict_head_def append_trade_def u32_def WINDOW_MS_def WINDOW_MINUTES_def
  live_def ring_list_def upt_rec replicate_4

lemma sliding_window_init_ok:
  "window_ok (sliding_window_init :: 'a::zero sliding_window)"
  "live (sliding_window_init :: 'a::zero sliding_window) = []"
  by (simp_all add: window_ok_def sliding_window_init_def WINDOW_CAPACITY_def live_def ring_list_def)

lemma window_of_capacity_ok:
  "0 < c \<Longrightarrow> c < 2 ^ 32 \<Longrightarrow> window_ok (window_of_capacity c :: 'a::zero sliding_window)"
  "live (window_of_capacity c :: 'a::zero sliding_window) = []"
  by (simp_all add: window_ok_def window_of_capacity_def live_def ring_list_def)

lemma append_trade_naive:
  fixes w :: "'a::{zero,plus,times} sliding_window"
  assumes "window_ok w" "sw_size w < sw_capacity w" "sums_exact w"
  shows "sums_exact (append_trade w ts p s)"
proof -
  have "sum_price_volume (append_trade w ts p s) = sum_price_volume w + p * s"
    "sum_volume (append_trade w ts p s) = sum_volume w + s"
    by (simp_all add: append_trade_def)
  then show ?thesis
    using assms(3)
    by (simp add: sums_exact_def naive_sum_pv_def naive_sum_v_def append_trade_ok(2) [OF assms(1,2)])
qed

lemma add_trade_evicts_nothing:
  fixes w :: "'a::{zero,plus,minus,times} sliding_window"
  assumes "window_ok w" "evicts_nothing w ts"
  shows "sliding_window_add_trade w ts p s = append_trade w ts p s"
    and "sw_size w < sw_capacity w"
proof -
  have nc: "\<not> (0 < sw_size w \<and> trade_ts_ms (sw_buffer w ! sw_head_idx w) < ts - WINDOW_MS)"
    using assms(2) unfolding evicts_nothing_def by blast
  have "prune_expired (ts - WINDOW_MS) w = w"
    by (subst prune_expired.simps) (simp only: nc if_False)
  moreover have "evict_if_full w = w"
    using assms(2) by (simp add: evict_if_full_def evicts_nothing_def)
  ultimately show "sliding_window_add_trade w ts p s = append_trade w ts p s"
    by (simp add: sliding_window_add_trade_def)
  show "sw_size w < sw_capacity w"
    using window_okD(5) [OF assms(1)] assms(2) by (simp add: evicts_nothing_def)
qed

lemma add_trades_none_evicted:
  fixes w :: "'a::{zero,plus,minus,times} sliding_window"
  assumes "window_ok w" "sums_exact w" "none_evicted w trades"
  shows "window_ok (add_trades w (take n trades)) \<and> sums_exact (add_trades w (take n trades))"
  using assms
proof (induction trades arbitrary: w n)
  case Nil
  then show ?case by simp
next
  case (Cons c rest)
  obtain ts p s where c: "c = (ts, p, s)" by (cases c)
  show ?case
  proof (cases n)
    case 0
    then show ?thesis using Cons.prems by simp
  next
    case (Suc k)
    have ev: "evicts_nothing w ts"
      and rest: "none_evicted (sliding_window_add_trade w ts p s) rest"
      using Cons.prems(3) by (simp_all add: c)
    note a1 = add_trade_evicts_nothing(1) [OF Cons.prems(1) ev, of p s]
      and a2 = add_trade_evicts_nothing(2) [OF Cons.prems(1) ev]
    have "sums_exact (sliding_window_add_trade w ts p s)"
      unfolding a1 using Cons.prems(1) a2 Cons.prems(2) by (rule append_trade_naive)
    from Cons.IH [OF add_trade_live(1) [OF Cons.prems(1)] this rest, of k]
    show ?thesis by (simp add: c Suc)
  qed
qed

text \<open>
  In double precision the running sums are not the naive sums once an entry has been
  evicted. Trades of price \<open>2 ^ 53\<close>, 1 and 1 (size 1) at 0 ms, 1 ms and 900001 ms:
  the second addition is absorbed (\<open>2 ^ 53 + 1\<close> rounds to \<open>2 ^ 53\<close>), the third call
  evicts the first trade, and the stored sum is 1 where the two live entries sum to 2.
\<close>

lemma running_sum_cancellation:
  "sum_price_volume (add_trades (window_of_capacity 4 :: double sliding_window)
       [(0, d_of_int 9007199254740992, d_of_int 1), (1, d_of_int 1, d_of_int 1),
        (900001, d_of_int 1, d_of_int 1)]) = d_of_int 1 \<and>
   naive_sum_pv (add_trades (window_of_capacity 4 :: double sliding_window)
       [(0, d_of_int 9007199254740992, d_of_int 1), (1, d_of_int 1, d_of_int 1),
        (900001, d_of_int 1, d_of_int 1)]) = d_of_int 2"
  by (simp add: window_eval double_eval naive_sum_pv_def)

text \<open>
  C1 (as the code has it). Starting from a well-formed window whose live entries
  are in chronological order, every call of a sequence with non-decreasing
  timestamps (none older than an entry already stored) leaves a well-formed,
  chronological window in which no live entry is more than \<open>WINDOW_MS\<close> older than
  the newest one, the trade just added. For arbitrary timestamps the two running
  sums stay equal to the naive sums over the live entries, added from the oldest
  on: in exact arithmetic (any ring, such as the real numbers) after every call;
  in the doubles of the program after every call of a sequence in which no call
  evicts an entry. The window \<open>sliding_window_init\<close> builds is well formed and empty,
  with exact sums. Once a call has evicted an entry the sums of doubles can differ
  from the naive ones: after the trades of price \<open>2 ^ 53\<close>, 1 and 1 (size 1) at 0 ms,
  1 ms and 900001 ms the stored sum is 1 and the naive sum of the two live entries
  is 2.
\<close>

theorem sliding_window_invariants:
  fixes w :: "'a::{plus,minus,times} sliding_window" and wr :: "'b::ring sliding_window"
    and wd :: "double sliding_window"
  shows "(window_ok w \<and> chronological w \<and> sorted (map fst trades) \<and>
          (\<forall>t \<in> set (live w). \<forall>c \<in> set trades. trade_ts_ms t \<le> fst c) \<longrightarrow>
            (\<forall>n. 0 < n \<and> n \<le> length trades \<longrightarrow>
               window_ok (add_trades w (take n trades)) \<and>
               chronological (add_trades w (take n trades)) \<and>
               within_window (add_trades w (take n trades)) \<and>
               trade_ts_ms (last (live (add_trades w (take n trades)))) = fst (trades ! (n - 1)))) \<and>
         (window_ok wr \<and> sums_exact wr \<longrightarrow>
            (\<forall>n. window_ok (add_trades wr (take n rtrades)) \<and>
                 sums_exact (add_trades wr (take n rtrades)))) \<and>
         (window_ok wd \<and> sums_exact wd \<and> none_evicted wd dtrades \<longrightarrow>
            (\<forall>n. window_ok (add_trades wd (take n dtrades)) \<and>
                 sums_exact (add_trades wd (take n dtrades)))) \<and>
         window_ok (sliding_window_init :: 'b sliding_window) \<and>
         live (sliding_window_init :: 'b sliding_window) = [] \<and>
         sums_exact (sliding_window_init :: 'b sliding_window) \<and>
         window_ok (sliding_window_init :: double sliding_window) \<and>
         live (sliding_window_init :: double sliding_window) = [] \<and>
         sums_exact (sliding_window_init :: double sliding_window) \<and>
         sum_price_volume (add_trades (window_of_capacity 4 :: double sliding_window)
           [(0, d_of_int 9007199254740992, d_of_int 1), (1, d_of_int 1, d_of_int 1),
            (900001, d_of_int 1, d_of_int 1)]) = d_of_int 1 \<and>
         naive_sum_pv (add_trades (window_of_capacity 4 :: double sliding_window)
           [(0, d_of_int 9007199254740992, d_of_int 1), (1, d_of_int 1, d_of_int 1),
            (900001, d_of_int 1, d_of_int 1)]) = d_of_int 2"
proof (intro conjI impI allI)
  fix n
  assume a: "window_ok w \<and> chronological w \<and> sorted (map fst trades) \<and>
          (\<forall>t \<in> set (live w). \<forall>c \<in> set trades. trade_ts_ms t \<le> fst c)"
    and n: "0 < n \<and> n \<le> length trades"
  have inv: "window_ok (add_trades w (take n trades)) \<and>
         chronological (add_trades w (take n trades)) \<and>
         within_window (add_trades w (take n trades)) \<and>
         trade_ts_ms (last (live (add_trades w (take n trades)))) = fst (trades ! (n - 1))"
    using a n by (intro add_trades_invariants) blast+
  from inv show "window_ok (add_trades w (take n trades))" by blast
  from inv show "chronological (add_trades w (take n trades))" by blast
  from inv show "within_window (add_trades w (take n trades))" by blast
  from inv show "trade_ts_ms (last (live (add_trades w (take n trades)))) = fst (trades ! (n - 1))"
    by blast
next
  fix n
  assume a: "window_ok wr \<and> sums_exact wr"
  then have s: "window_ok (add_trades wr (take n rtrades)) \<and> sums_exact (add_trades wr (take n rtrades))"
    by (intro add_trades_sums) blast+
  from s show "window_ok (add_trades wr (take n rtrades))" by blast
  from s show "sums_exact (add_trades wr (take n rtrades))" by blast
next
  fix n
  assume a: "window_ok wd \<and> sums_exact wd \<and> none_evicted wd dtrades"
  then have s: "window_ok (add_trades wd (take n dtrades)) \<and> sums_exact (add_trades wd (take n dtrades))"
    by (intro add_trades_none_evicted) blast+
  from s show "window_ok (add_trades wd (take n dtrades))" by blast
  from s show "sums_exact (add_trades wd (take n dtrades))" by blast
next
  show "window_ok (sliding_window_init :: 'b sliding_window)"
    by (rule sliding_window_init_ok)
  show "live (sliding_window_init :: 'b sliding_window) = []"
    by (rule sliding_window_init_ok)
  show "sums_exact (sliding_window_init :: 'b sliding_window)"
    by (simp add: sums_exact_def naive_sum_pv_def naive_sum_v_def sliding_window_init_ok(2))
      (simp add: sliding_window_init_def)
  show "window_ok (sliding_window_init :: double sliding_window)"
    by (rule sliding_window_init_ok)
  show "live (sliding_window_init :: double sliding_window) = []"
    by (rule sliding_window_init_ok)
  show "sums_exact (sliding_window_init :: double sliding_window)"
    by (simp add: sums_exact_def naive_sum_pv_def naive_sum_v_def sliding_window_init_ok(2))
      (simp add: sliding_window_init_def)
  show "sum_price_volume (add_trades (window_of_capacity 4 :: double sliding_window)
           [(0, d_of_int 9007199254740992, d_of_int 1), (1, d_of_int 1, d_of_int 1),
            (900001, d_of_int 1, d_of_int 1)]) = d_of_int 1"
    using running_sum_cancellation by blast
  show "naive_sum_pv (add_trades (window_of_capacity 4 :: double sliding_window)
           [(0, d_of_int 9007199254740992, d_of_int 1), (1, d_of_int 1, d_of_int 1),
            (900001, d_of_int 1, d_of_int 1)]) = d_of_int 2"
    using running_sum_cancellation by blast
qed

text \<open>
  Scenario S2 of the specification as the instance: trades at 0, W and W + 1 with
  prices 100, 200, 300 and size 1; after the third call the first trade is gone.
\<close>

theorem sliding_window_invariants_witness:
  "window_ok (window_of_capacity 4 :: double sliding_window) \<and>
   chronological (window_of_capacity 4 :: double sliding_window) \<and>
   sorted (map fst [(0 :: int, d_of_int 100, d_of_int 1), (900000, d_of_int 200, d_of_int 1),
                    (900001, d_of_int 300, d_of_int 1)]) \<and>
   within_window (add_trades (window_of_capacity 4)
      [(0, d_of_int 100, d_of_int 1), (900000, d_of_int 200, d_of_int 1),
       (900001, d_of_int 300, d_of_int 1)]) \<and>
   map trade_ts_ms (live (add_trades (window_of_capacity 4)
      [(0, d_of_int 100, d_of_int 1), (900000, d_of_int 200, d_of_int 1),
       (900001, d_of_int 300, d_of_int 1)])) = [900000, 900001] \<and>
   window_ok (window_of_capacity 4 :: real sliding_window) \<and>
   sums_exact (window_of_capacity 4 :: real sliding_window) \<and>
   sums_exact (add_trades (window_of_capacity 4 :: real sliding_window)
      [(0, 100, 1), (900000, 200, 1), (900001, 300, 1)]) \<and>
   sum_price_volume (add_trades (window_of_capacity 4 :: real sliding_window)
      [(0, 100, 1), (900000, 200, 1), (900001, 300, 1)]) = 500 \<and>
   sums_exact (window_of_capacity 4 :: double sliding_window) \<and>
   none_evicted (window_of_capacity 4 :: double sliding_window)
      [(0, d_of_int 100, d_of_int 1), (900000, d_of_int 200, d_of_int 1)] \<and>
   sums_exact (add_trades (window_of_capacity 4 :: double sliding_window)
      [(0, d_of_int 100, d_of_int 1), (900000, d_of_int 200, d_of_int 1)]) \<and>
   sum_price_volume (add_trades (window_of_capacity 4 :: double sliding_window)
      [(0, d_of_int 100, d_of_int 1), (900000, d_of_int 200, d_of_int 1)]) = d_of_int 300"
proof -
  let ?w = "window_of_capacity 4 :: double sliding_window"
  let ?wr = "window_of_capacity 4 :: real sliding_window"
  let ?trades = "[(0, d_of_int 100, d_of_int 1), (900000, d_of_int 200, d_of_int 1),
                    (900001, d_of_int 300, d_of_int 1)] :: (int \<times> double \<times> double) list"
  let ?rtrades = "[(0, 100, 1), (900000, 200, 1), (900001, 300, 1)] :: (int \<times> real \<times> real) list"
  let ?dtrades = "[(0, d_of_int 100, d_of_int 1), (900000, d_of_int 200, d_of_int 1)]
                    :: (int \<times> double \<times> double) list"
  have ok: "window_ok ?w" and okr: "window_ok ?wr"
    by (simp_all add: window_of_capacity_ok)
  have e: "live ?w = []" and er: "live ?wr = []"
    by (simp_all add: window_of_capacity_ok)
  have ch: "chronological ?w" by (simp add: chronological_def e)
  have newest: "\<forall>t \<in> set (live ?w). \<forall>c \<in> set ?trades. trade_ts_ms t \<le> fst c"
    by (simp add: e)
  have sr: "sums_exact ?wr"
    by (simp add: sums_exact_def naive_sum_pv_def naive_sum_v_def er) (simp add: window_of_capacity_def)
  have sd: "sums_exact ?w"
    by (simp add: sums_exact_def naive_sum_pv_def naive_sum_v_def e) (simp add: window_of_capacity_def)
  have srt: "sorted (map fst ?trades)" by simp
  have l: "map trade_ts_ms (live (add_trades ?w ?trades)) = [900000, 900001]"
    by (simp add: window_eval double_eval)
  have v: "sum_price_volume (add_trades ?wr ?rtrades) = 500"
    by (simp add: window_eval)
  have ne: "none_evicted ?w ?dtrades"
    by (simp add: evicts_nothing_def window_eval double_eval)
  have vd: "sum_price_volume (add_trades ?w ?dtrades) = d_of_int 300"
    by (simp add: window_eval double_eval)
  have "within_window (add_trades ?w (take 3 ?trades))"
    using sliding_window_invariants [of ?w ?trades ?wr ?rtrades, THEN conjunct1, rule_format, of 3]
      ok ch srt newest by simp
  moreover have "sums_exact (add_trades ?wr (take 3 ?rtrades))"
    using sliding_window_invariants [of ?w ?trades ?wr ?rtrades, THEN conjunct2, THEN conjunct1,
        rule_format, of 3] okr sr by simp
  moreover have "sums_exact (add_trades ?w (take 2 ?dtrades))"
    using sliding_window_invariants [where wd = ?w and dtrades = ?dtrades,
        THEN conjunct2, THEN conjunct2, THEN conjunct1, rule_format, of 2] ok sd ne by blast
  ultimately show ?thesis
    using ok okr ch srt sr sd ne l v vd by simp
qed

text \<open>
  With a late, out-of-order trade the window property fails. Three calls on an
  empty window, at 1000000 ms, at 0 ms and at 1000001 ms: the last call prunes from
  the head only, the head (1000000) is recent, and the trade at 0 ms stays live
  although it is older than 1000001 - 900000.
\<close>

theorem late_trade_counterexample:
  "window_ok (window_of_capacity 4 :: double sliding_window) \<and>
   \<not> within_window (add_trades (window_of_capacity 4 :: double sliding_window)
       [(1000000, d_of_int 1, d_of_int 1), (0, d_of_int 1, d_of_int 1),
        (1000001, d_of_int 1, d_of_int 1)])"
proof -
  have "live (add_trades (window_of_capacity 4 :: double sliding_window)
       [(1000000, d_of_int 1, d_of_int 1), (0, d_of_int 1, d_of_int 1),
        (1000001, d_of_int 1, d_of_int 1)]) =
     [\<lparr>trade_ts_ms = 1000000, price = Fin 4503599627370496 (- 52),
         size_pt = Fin 4503599627370496 (- 52)\<rparr>,
      \<lparr>trade_ts_ms = 0, price = Fin 4503599627370496 (- 52),
         size_pt = Fin 4503599627370496 (- 52)\<rparr>,
      \<lparr>trade_ts_ms = 1000001, price = Fin 4503599627370496 (- 52),
         size_pt = Fin 4503599627370496 (- 52)\<rparr>]"
    by (simp add: window_eval double_eval)
  then show ?thesis
    by (simp add: within_window_def window_of_capacity_ok WINDOW_MS_def WINDOW_MINUTES_def)
qed

section \<open>Doubles: order, commutativity, not-a-number\<close>

lemma of_int_shift:
  assumes "e \<le> e1"
  shows "real_of_int (m * 2 ^ nat (e1 - e)) * 2 powi e = of_int m * 2 powi e1"
proof -
  have k: "(2::real) powi (e1 - e) = 2 ^ nat (e1 - e)"
    using assms by (simp add: power_int_def)
  have "(2::real) powi ((e1 - e) + e) = 2 powi (e1 - e) * 2 powi e"
    by (rule power_int_add) simp
  then have s: "(2::real) powi (e1 - e) * 2 powi e = 2 powi e1" by simp
  have "real_of_int (m * 2 ^ nat (e1 - e)) * 2 powi e = of_int m * (2 powi (e1 - e) * 2 powi e)"
    by (simp only: k of_int_mult of_int_power of_int_numeral mult.assoc)
  then show ?thesis by (simp only: s)
qed

lemma less_aligned_iff:
  "less_aligned m1 e1 m2 e2 (min e1 e2) \<longleftrightarrow>
     real_of_int m1 * 2 powi e1 < real_of_int m2 * 2 powi e2"
proof -
  let ?e = "min e1 e2"
  have p: "(0::real) < 2 powi ?e" by simp
  have "less_aligned m1 e1 m2 e2 ?e \<longleftrightarrow>
      real_of_int (m1 * 2 ^ nat (e1 - ?e)) < real_of_int (m2 * 2 ^ nat (e2 - ?e))"
    unfolding less_aligned_def by (simp only: of_int_less_iff)
  also have "\<dots> \<longleftrightarrow> real_of_int (m1 * 2 ^ nat (e1 - ?e)) * 2 powi ?e
                   < real_of_int (m2 * 2 ^ nat (e2 - ?e)) * 2 powi ?e"
    using p by (simp only: mult_less_cancel_right_pos)
  also have "\<dots> \<longleftrightarrow> real_of_int m1 * 2 powi e1 < real_of_int m2 * 2 powi e2"
    by (simp only: of_int_shift [OF min.cobounded1] of_int_shift [OF min.cobounded2])
  finally show ?thesis .
qed

lemma dless_Fin: "dless (Fin m1 e1) (Fin m2 e2) \<longleftrightarrow> dval (Fin m1 e1) < dval (Fin m2 e2)"
proof -
  have p1: "(0::real) < 2 powi e1" and p2: "(0::real) < 2 powi e2" by simp_all
  show ?thesis
  proof (cases "m1 = 0")
    case True
    have "(0 * 2 powi e2 < real_of_int m2 * 2 powi e2) = (0 < real_of_int m2)"
      using p2 by (rule mult_less_cancel_right_pos)
    then have "(0 < real_of_int m2 * 2 powi e2) = (0 < m2)"
      by (simp only: mult_zero_left of_int_0_less_iff)
    then show ?thesis using True by (simp only: dval_def dless.simps double.case if_True of_int_0 mult_zero_left simp_thms)
  next
    case m1: False
    show ?thesis
    proof (cases "m2 = 0")
      case True
      have "(real_of_int m1 * 2 powi e1 < 0 * 2 powi e1) = (real_of_int m1 < 0)"
        using p1 by (rule mult_less_cancel_right_pos)
      then have "(real_of_int m1 * 2 powi e1 < 0) = (m1 < 0)"
        by (simp only: mult_zero_left of_int_less_0_iff)
      then show ?thesis using True m1
        by (simp only: dval_def dless.simps double.case if_True if_False of_int_0 mult_zero_left simp_thms)
    next
      case False
      then show ?thesis using m1
        by (simp only: dval_def dless.simps double.case if_False less_aligned_iff simp_thms)
    qed
  qed
qed

lemma dless_trans: "dless a b \<Longrightarrow> dless b c \<Longrightarrow> dless a c"
  by (cases a; cases b; cases c; simp del: dless.simps(1) add: dless_Fin)

lemma dless_total:
  "\<not> isnan a \<Longrightarrow> \<not> isnan b \<Longrightarrow> \<not> isnan c \<Longrightarrow> \<not> dless a b \<Longrightarrow> dless a c \<Longrightarrow> dless b c"
  by (cases a; cases b; cases c; simp del: dless.simps(1) add: dless_Fin)

lemma dless_irrefl: "\<not> dless a a"
  by (cases a; simp del: dless.simps(1) add: dless_Fin)

lemma isnan_fabs [simp]: "isnan (fabs a) = isnan a"
  by (cases a) simp_all

lemma isnan_iff: "isnan a \<longleftrightarrow> a = NaN"
  by (cases a) simp_all

lemma dadd_commute: "dadd a b = dadd b a"
  by (cases a; cases b) (simp_all add: add_aligned_def add.commute min.commute)

lemma dmul_commute: "dmul a b = dmul b a"
  by (cases a; cases b) (simp_all add: mult.commute add.commute)

lemma double_add_commute: "(a::double) + b = b + a"
  by (simp add: plus_double_def dadd_commute)

lemma double_mult_commute: "(a::double) * b = b * a"
  by (simp add: times_double_def dmul_commute)

lemma nan_arith [simp]:
  "NaN + a = NaN" "a + NaN = NaN" "NaN - a = NaN" "a - NaN = NaN"
  "NaN * a = NaN" "a * NaN = NaN" "NaN / a = NaN" "a / NaN = NaN"
  "dsqrt NaN = NaN" "deq NaN a = False" "deq a NaN = False"
  by (cases a; simp add: plus_double_def minus_double_def dsub_def times_double_def divide_double_def)+

section \<open>The search for the first largest absolute value\<close>

lemma fabs_less_trans: "fabs a < fabs b \<Longrightarrow> fabs b < fabs c \<Longrightarrow> fabs a < fabs c"
  unfolding less_double_def by (rule dless_trans)

lemma fabs_less_irrefl: "\<not> fabs a < fabs (a::double)"
  unfolding less_double_def by (rule dless_irrefl)

lemma fabs_less_total:
  "\<not> isnan a \<Longrightarrow> \<not> isnan b \<Longrightarrow> \<not> isnan c \<Longrightarrow>
   \<not> fabs a < fabs b \<Longrightarrow> fabs a < fabs c \<Longrightarrow> fabs b < fabs c"
  unfolding less_double_def by (rule dless_total) simp_all

lemma lag_fold_char:
  fixes c :: "int \<Rightarrow> double" and e :: "int \<Rightarrow> int"
  assumes "sorted os" "distinct os"
  shows "let st = fold (\<lambda>k. lag_update (c k) (e k)) os
                    \<lparr>best_corr_val = 0, best_end_minute_ms = 0, found_match = False\<rparr>
         in (found_match st \<longleftrightarrow> (\<exists>k \<in> set os. \<not> isnan (c k))) \<and>
            (found_match st \<longrightarrow>
               (\<exists>b. first_largest c (set os) b \<and> best_corr_val st = c b \<and> best_end_minute_ms st = e b))"
  using assms
proof (induction os rule: rev_induct)
  case Nil
  then show ?case by simp
next
  case (snoc x xs)
  let ?st = "fold (\<lambda>k. lag_update (c k) (e k)) xs
                    \<lparr>best_corr_val = 0, best_end_minute_ms = 0, found_match = False\<rparr>"
  let ?st' = "lag_update (c x) (e x) ?st"
  have srt: "sorted xs" "distinct xs" and lt: "\<forall>k \<in> set xs. k < x"
    using snoc.prems by (auto simp: sorted_append order_less_le)
  have ih1: "found_match ?st \<longleftrightarrow> (\<exists>k \<in> set xs. \<not> isnan (c k))"
    and ih2: "found_match ?st \<Longrightarrow>
       \<exists>b. first_largest c (set xs) b \<and> best_corr_val ?st = c b \<and> best_end_minute_ms ?st = e b"
    using snoc.IH [OF srt] by (simp_all add: Let_def)
  have goal: "(found_match ?st' \<longleftrightarrow> (\<exists>k \<in> set (xs @ [x]). \<not> isnan (c k))) \<and>
            (found_match ?st' \<longrightarrow>
               (\<exists>b. first_largest c (set (xs @ [x])) b \<and> best_corr_val ?st' = c b \<and>
                    best_end_minute_ms ?st' = e b))"
  proof (cases "isnan (c x)")
    case True
    then have same: "?st' = ?st" by (simp add: lag_update_def)
    have "first_largest c (set (xs @ [x])) b" if "first_largest c (set xs) b" for b
      using that True lt by (auto simp: first_largest_def)
    then show ?thesis
      unfolding same using ih1 ih2 True by auto
  next
    case nn: False
    show ?thesis
    proof (cases "found_match ?st")
      case False
      then have new: "?st' = \<lparr>best_corr_val = c x, best_end_minute_ms = e x, found_match = True\<rparr>"
        using nn by (simp add: lag_update_def)
      have "\<forall>k \<in> set xs. isnan (c k)" using False ih1 by blast
      then have "first_largest c (set (xs @ [x])) x"
        using nn by (auto simp: first_largest_def fabs_less_irrefl)
      then show ?thesis using nn by (auto simp: new)
    next
      case True
      then obtain b where b: "first_largest c (set xs) b" "best_corr_val ?st = c b"
        "best_end_minute_ms ?st = e b"
        using ih2 by blast
      then have bx: "b \<in> set xs" "\<not> isnan (c b)" by (simp_all add: first_largest_def)
      show ?thesis
      proof (cases "fabs (c b) < fabs (c x)")
        case less: True
        then have new: "?st' = \<lparr>best_corr_val = c x, best_end_minute_ms = e x, found_match = True\<rparr>"
          using nn b(2) by (simp add: lag_update_def)
        have "\<not> fabs (c x) < fabs (c k)" if "k \<in> set xs" "\<not> isnan (c k)" for k
        proof
          assume "fabs (c x) < fabs (c k)"
          with less have "fabs (c b) < fabs (c k)" by (rule fabs_less_trans)
          then show False using b(1) that by (simp add: first_largest_def)
        qed
        moreover have "fabs (c k) < fabs (c x)" if "k \<in> set xs" "\<not> isnan (c k)" for k
        proof -
          have "\<not> fabs (c b) < fabs (c k)" using b(1) that by (simp add: first_largest_def)
          with bx(2) that(2) nn show ?thesis using less by (rule fabs_less_total)
        qed
        ultimately have "first_largest c (set (xs @ [x])) x"
          using nn by (auto simp: first_largest_def fabs_less_irrefl)
        then show ?thesis using nn by (auto simp: new)
      next
        case nless: False
        then have same: "?st' = ?st"
          using nn True b(2) by (simp add: lag_update_def)
        have "first_largest c (set (xs @ [x])) b"
          using b(1) nless lt by (auto simp: first_largest_def)
        then show ?thesis
          unfolding same using True b(2,3) bx by auto
      qed
    qed
  qed
  then show ?case by (simp add: Let_def)
qed

section \<open>The history ring read by index\<close>

lemma smod_nonneg: "0 \<le> a \<Longrightarrow> 0 < b \<Longrightarrow> a smod b = a mod (b::int)"
  by (simp add: signed_modulo_int_def sgn_if)

lemma history_okD:
  assumes "history_ok h"
  shows "vh_capacity h = int (length (vh_buffer h))" and "0 < vh_capacity h"
    and "0 \<le> vh_head_idx h" and "vh_head_idx h < vh_capacity h"
    and "0 \<le> vh_size h" and "vh_size h \<le> vh_capacity h"
    and "vh_tail_idx h = (vh_head_idx h + vh_size h) mod vh_capacity h"
  using assms unfolding history_ok_def by blast+

lemma entries_length [simp]: "length (entries h) = nat (vh_size h)"
  by (simp add: entries_def)

text \<open>Slot \<open>(head + k) % capacity\<close> of the buffer is entry number \<open>k\<close>.\<close>

lemma history_slot:
  assumes "history_ok h" "0 \<le> k" "k < vh_size h"
  shows "vh_buffer h ! nat ((vh_head_idx h + k) smod vh_capacity h) = entries h ! nat k"
proof -
  note c = history_okD(2) [OF assms(1)] and h0 = history_okD(3) [OF assms(1)]
  have "(vh_head_idx h + k) smod vh_capacity h = (vh_head_idx h + k) mod vh_capacity h"
    using assms(2) h0 c by (intro smod_nonneg) linarith+
  moreover have "nat ((vh_head_idx h + k) mod vh_capacity h) =
      nat (vh_head_idx h + k) mod nat (vh_capacity h)"
    using assms(2) h0 c by (intro nat_mod_distrib) linarith+
  moreover have "nat (vh_head_idx h + k) = nat (vh_head_idx h) + nat k"
    using assms(2) h0 by (intro nat_add_distrib)
  moreover have "entries h ! nat k =
      vh_buffer h ! ((nat (vh_head_idx h) + nat k) mod nat (vh_capacity h))"
    unfolding entries_def using assms(2,3) by (intro ring_list_nth) linarith
  ultimately show ?thesis by simp
qed

lemma window_start_idx_mod:
  assumes "history_ok h" "0 \<le> vh_size h - P - offset"
  shows "window_start_idx h P offset = (vh_head_idx h + (vh_size h - P - offset)) mod vh_capacity h"
proof -
  note c = history_okD(2) [OF assms(1)] and h0 = history_okD(3) [OF assms(1)]
  have "vh_head_idx h + vh_size h - P - offset = vh_head_idx h + (vh_size h - P - offset)"
    by linarith
  moreover have "(vh_head_idx h + (vh_size h - P - offset)) smod vh_capacity h =
      (vh_head_idx h + (vh_size h - P - offset)) mod vh_capacity h"
    using assms(2) h0 c by (intro smod_nonneg) linarith+
  ultimately show ?thesis by (simp only: window_start_idx_def)
qed

lemma window_slot:
  assumes "history_ok h" "0 \<le> vh_size h - P - offset" "0 \<le> i" "vh_size h - P - offset + i < vh_size h"
  shows "vh_buffer h ! nat ((window_start_idx h P offset + i) smod vh_capacity h) =
         entries h ! nat (vh_size h - P - offset + i)"
proof -
  let ?d = "vh_size h - P - offset"
  note c = history_okD(2) [OF assms(1)] and h0 = history_okD(3) [OF assms(1)]
  have w: "window_start_idx h P offset = (vh_head_idx h + ?d) mod vh_capacity h"
    using assms(1,2) by (rule window_start_idx_mod)
  have nonneg: "0 \<le> window_start_idx h P offset + i"
    unfolding w using c assms(3) by (simp add: add_nonneg_nonneg)
  have "(window_start_idx h P offset + i) smod vh_capacity h =
        (window_start_idx h P offset + i) mod vh_capacity h"
    using nonneg c by (rule smod_nonneg)
  also have "\<dots> = (vh_head_idx h + (?d + i)) mod vh_capacity h"
    unfolding w by (simp add: mod_add_left_eq add.assoc)
  also have "\<dots> = (vh_head_idx h + (?d + i)) smod vh_capacity h"
    using assms(2,3) h0 c by (intro smod_nonneg [symmetric]) linarith+
  finally have "(window_start_idx h P offset + i) smod vh_capacity h =
        (vh_head_idx h + (?d + i)) smod vh_capacity h" .
  moreover have "vh_buffer h ! nat ((vh_head_idx h + (?d + i)) smod vh_capacity h) = entries h ! nat (?d + i)"
    using assms by (intro history_slot) linarith+
  ultimately show ?thesis by simp
qed

lemma candidate_window_nth:
  assumes "0 \<le> vh_size h - P - offset" "0 \<le> offset" "i < nat P"
  shows "candidate_window h P offset ! i = entries h ! nat (vh_size h - P - offset + int i)"
    and "length (candidate_window h P offset) = nat P"
proof -
  let ?d = "vh_size h - P - offset"
  have "nat ?d + nat P \<le> nat (vh_size h)" using assms by linarith
  then show len: "length (candidate_window h P offset) = nat P"
    by (simp add: candidate_window_def)
  have "nat ?d + i < length (entries h)" using assms by simp
  moreover have "nat (?d + int i) = nat ?d + i" using assms(1) by linarith
  ultimately show "candidate_window h P offset ! i = entries h ! nat (?d + int i)"
    using assms(3) by (simp add: candidate_window_def)
qed

lemma target_vec_candidate:
  assumes "history_ok h" "0 \<le> offset" "offset \<le> vh_size h - P"
  shows "target_vec h P (window_start_idx h P offset) = map vwap (candidate_window h P offset)"
proof (rule nth_equalityI)
  have d: "0 \<le> vh_size h - P - offset" using assms(3) by linarith
  show "length (target_vec h P (window_start_idx h P offset)) =
        length (map vwap (candidate_window h P offset))"
  proof (cases "0 < P")
    case True
    then show ?thesis using candidate_window_nth(2) [OF d assms(2), of 0] by (simp add: target_vec_def)
  next
    case False
    then show ?thesis by (simp add: target_vec_def candidate_window_def)
  qed
  fix i assume "i < length (target_vec h P (window_start_idx h P offset))"
  then have i: "i < nat P" by (simp add: target_vec_def)
  have "vh_size h - P - offset + int i < vh_size h" using i assms(2) by linarith
  then have "vh_buffer h ! nat ((window_start_idx h P offset + int i) smod vh_capacity h) =
         entries h ! nat (vh_size h - P - offset + int i)"
    using assms(1) d by (intro window_slot) simp_all
  then show "target_vec h P (window_start_idx h P offset) ! i =
             map vwap (candidate_window h P offset) ! i"
    using i candidate_window_nth [OF d assms(2) i] by (simp add: target_vec_def)
qed

lemma end_minute_candidate:
  assumes "history_ok h" "0 \<le> offset" "offset \<le> vh_size h - P" "1 \<le> P"
  shows "end_minute_ms h P (window_start_idx h P offset) = candidate_end h P offset"
    and "candidate_end h P offset = minute_ts_ms (entries h ! nat (vh_size h - 1 - offset))"
proof -
  have d: "0 \<le> vh_size h - P - offset" using assms(3) by linarith
  have i: "nat (P - 1) < nat P" using assms(4) by linarith
  note n = candidate_window_nth [OF d assms(2) i]
  have ne: "candidate_window h P offset \<noteq> []" using n(2) assms(4) by auto
  have idx: "vh_size h - P - offset + int (nat (P - 1)) = vh_size h - 1 - offset"
    using assms(4) by linarith
  have p1: "nat P - 1 = nat (P - 1)" using assms(4) by linarith
  have "last (candidate_window h P offset) = candidate_window h P offset ! (nat P - 1)"
    using ne n(2) by (simp add: last_conv_nth)
  also have "\<dots> = candidate_window h P offset ! nat (P - 1)"
    by (simp only: p1)
  also have "\<dots> = entries h ! nat (vh_size h - P - offset + int (nat (P - 1)))"
    by (rule n(1))
  also have "\<dots> = entries h ! nat (vh_size h - 1 - offset)"
    by (simp only: idx)
  finally have l: "last (candidate_window h P offset) = entries h ! nat (vh_size h - 1 - offset)" .
  then show "candidate_end h P offset = minute_ts_ms (entries h ! nat (vh_size h - 1 - offset))"
    by (simp add: candidate_end_def)
  have "vh_size h - P - offset + (P - 1) < vh_size h" using assms(2) by linarith
  then have "vh_buffer h ! nat ((window_start_idx h P offset + (P - 1)) smod vh_capacity h) =
         entries h ! nat (vh_size h - P - offset + (P - 1))"
    using assms(1,4) d by (intro window_slot) simp_all
  moreover have e1: "window_start_idx h P offset + P - 1 = window_start_idx h P offset + (P - 1)"
    by linarith
  moreover have e2: "vh_size h - P - offset + (P - 1) = vh_size h - 1 - offset" by linarith
  ultimately have "vh_buffer h ! nat ((window_start_idx h P offset + P - 1) smod vh_capacity h) =
         last (candidate_window h P offset)"
    by (simp only: l)
  then show "end_minute_ms h P (window_start_idx h P offset) = candidate_end h P offset"
    by (simp only: end_minute_ms_def candidate_end_def)
qed

section \<open>The lag search\<close>

lemma first_largest_cong:
  assumes "\<forall>k \<in> S. c k = c' k"
  shows "first_largest c S b = first_largest c' S b"
  using assms by (auto simp: first_largest_def)

lemma lag_search_from_char:
  fixes src h P
  defines "c \<equiv> \<lambda>k. pearson_correlation src (target_vec h P (window_start_idx h P k)) P"
    and "e \<equiv> \<lambda>k. end_minute_ms h P (window_start_idx h P k)"
  shows "((\<forall>k \<in> {lo..hi}. isnan (c k)) \<longrightarrow> lag_search_from src h P lo hi = (NaN, 0)) \<and>
         ((\<exists>k \<in> {lo..hi}. \<not> isnan (c k)) \<longrightarrow>
            (\<exists>b. first_largest c {lo..hi} b \<and> lag_search_from src h P lo hi = (c b, e b)))"
proof -
  let ?st = "fold (\<lambda>k. lag_update (c k) (e k)) [lo..hi]
                    \<lparr>best_corr_val = 0, best_end_minute_ms = 0, found_match = False\<rparr>"
  have f: "lag_step src h P = (\<lambda>k. lag_update (c k) (e k))"
    by (rule ext)+ (simp add: lag_step_def lag_at_def c_def e_def)
  have r: "lag_search_from src h P lo hi = lag_result ?st"
    by (simp only: lag_search_from_def f)
  have "sorted [lo..hi]" "distinct [lo..hi]" by simp_all
  from lag_fold_char [OF this, of c e]
  have ch: "found_match ?st \<longleftrightarrow> (\<exists>k \<in> {lo..hi}. \<not> isnan (c k))"
    and b: "found_match ?st \<Longrightarrow>
       \<exists>b. first_largest c {lo..hi} b \<and> best_corr_val ?st = c b \<and> best_end_minute_ms ?st = e b"
    by (simp_all add: Let_def)
  show ?thesis
  proof (intro conjI impI)
    assume "\<forall>k \<in> {lo..hi}. isnan (c k)"
    then have "\<not> found_match ?st" using ch by blast
    then show "lag_search_from src h P lo hi = (NaN, 0)"
      by (simp add: r lag_result_def)
  next
    assume "\<exists>k \<in> {lo..hi}. \<not> isnan (c k)"
    then have fm: "found_match ?st" using ch by blast
    then obtain b where "first_largest c {lo..hi} b" "best_corr_val ?st = c b"
      "best_end_minute_ms ?st = e b"
      using b by blast
    then show "\<exists>b. first_largest c {lo..hi} b \<and> lag_search_from src h P lo hi = (c b, e b)"
      using fm by (auto simp: r lag_result_def)
  qed
qed

lemma lag_search_from_spec:
  assumes "history_ok h" "1 \<le> P" "0 \<le> lo" "hi \<le> vh_size h - P"
  shows "((\<forall>k \<in> {lo..hi}. isnan (candidate_corr src h P k)) \<longrightarrow>
            lag_search_from src h P lo hi = (NaN, 0)) \<and>
         ((\<exists>k \<in> {lo..hi}. \<not> isnan (candidate_corr src h P k)) \<longrightarrow>
            (\<exists>b. first_largest (candidate_corr src h P) {lo..hi} b \<and>
                 lag_search_from src h P lo hi = (candidate_corr src h P b, candidate_end h P b)))"
proof -
  let ?c = "\<lambda>k. pearson_correlation src (target_vec h P (window_start_idx h P k)) P"
  let ?e = "\<lambda>k. end_minute_ms h P (window_start_idx h P k)"
  have c: "?c k = candidate_corr src h P k" if "k \<in> {lo..hi}" for k
  proof -
    have "0 \<le> k" "k \<le> vh_size h - P" using that assms(3,4) by simp_all
    then show ?thesis
      using assms(1) by (simp add: candidate_corr_def target_vec_candidate)
  qed
  have e: "?e k = candidate_end h P k" if "k \<in> {lo..hi}" for k
  proof -
    have "0 \<le> k" "k \<le> vh_size h - P" using that assms(3,4) by simp_all
    then show ?thesis
      using assms(1,2) by (intro end_minute_candidate(1))
  qed
  have cong: "first_largest ?c {lo..hi} b = first_largest (candidate_corr src h P) {lo..hi} b" for b
    using c by (intro first_largest_cong) blast
  note ch = lag_search_from_char [of lo hi src h P]
  show ?thesis
  proof (intro conjI impI)
    assume "\<forall>k \<in> {lo..hi}. isnan (candidate_corr src h P k)"
    then have "\<forall>k \<in> {lo..hi}. isnan (?c k)" using c by simp
    then show "lag_search_from src h P lo hi = (NaN, 0)" using ch by blast
  next
    assume "\<exists>k \<in> {lo..hi}. \<not> isnan (candidate_corr src h P k)"
    then have "\<exists>k \<in> {lo..hi}. \<not> isnan (?c k)" using c by auto
    then obtain b where b: "first_largest ?c {lo..hi} b"
      "lag_search_from src h P lo hi = (?c b, ?e b)"
      using ch by blast
    then have "b \<in> {lo..hi}" by (simp add: first_largest_def)
    then show "\<exists>b. first_largest (candidate_corr src h P) {lo..hi} b \<and>
                 lag_search_from src h P lo hi = (candidate_corr src h P b, candidate_end h P b)"
      using b cong c e by auto
  qed
qed

text \<open>
  C2. On a well-formed history, with a window length between 1 and the 8 slots of
  \<open>target_vec\<close> and a non-negative minimal offset: the result is \<open>(NaN, 0)\<close> when the
  history is shorter than \<open>P + min_off\<close>; otherwise the offsets examined are those of
  \<open>[min_off, min (size - P) cap]\<close>, the correlation of each is that of the source
  with the \<open>P\<close> entries that end \<open>offset\<close> positions before the tail, and the result
  is the first candidate (smallest offset) among those whose absolute correlation no
  other non-NaN candidate exceeds, with the minute of the last entry of its window;
  it is \<open>(NaN, 0)\<close> when every candidate is NaN.
\<close>

theorem find_best_lagged_correlation_spec:
  assumes "history_ok h" "1 \<le> P" "P \<le> MOVING_AVG_POINTS" "0 \<le> min_off"
  shows "(vh_size h < P + min_off \<longrightarrow>
            find_best_lagged_correlation src h P min_off cap = (NaN, 0)) \<and>
         (P + min_off \<le> vh_size h \<longrightarrow>
            ((\<forall>k \<in> {min_off..min (vh_size h - P) cap}. isnan (candidate_corr src h P k)) \<longrightarrow>
               find_best_lagged_correlation src h P min_off cap = (NaN, 0)) \<and>
            ((\<exists>k \<in> {min_off..min (vh_size h - P) cap}. \<not> isnan (candidate_corr src h P k)) \<longrightarrow>
               (\<exists>b. first_largest (candidate_corr src h P) {min_off..min (vh_size h - P) cap} b \<and>
                    find_best_lagged_correlation src h P min_off cap =
                      (candidate_corr src h P b, candidate_end h P b))))"
proof (intro conjI impI)
  assume "vh_size h < P + min_off"
  then show "find_best_lagged_correlation src h P min_off cap = (NaN, 0)"
    by (simp add: find_best_lagged_correlation_def)
next
  assume len: "P + min_off \<le> vh_size h"
  have m: "(if cap < vh_size h - P then cap else vh_size h - P) = min (vh_size h - P) cap"
    by (simp add: min_def)
  have r: "find_best_lagged_correlation src h P min_off cap =
      lag_search_from src h P min_off (min (vh_size h - P) cap)"
    using len by (simp add: find_best_lagged_correlation_def m)
  have hi: "min (vh_size h - P) cap \<le> vh_size h - P" by simp
  note s = lag_search_from_spec [OF assms(1,2,4) hi, of src]
  {
    assume "\<forall>k \<in> {min_off..min (vh_size h - P) cap}. isnan (candidate_corr src h P k)"
    then show "find_best_lagged_correlation src h P min_off cap = (NaN, 0)"
      using s unfolding r by blast
  }
  {
    assume "\<exists>k \<in> {min_off..min (vh_size h - P) cap}. \<not> isnan (candidate_corr src h P k)"
    then show "\<exists>b. first_largest (candidate_corr src h P) {min_off..min (vh_size h - P) cap} b \<and>
                    find_best_lagged_correlation src h P min_off cap =
                      (candidate_corr src h P b, candidate_end h P b)"
      using s unfolding r by blast
  }
qed

section \<open>Appending to the history and reading its tail\<close>

lemma history_make_room_ok:
  assumes "history_ok h"
  shows "history_ok (history_make_room h)"
    and "entries (history_make_room h) =
           (if vh_size h = vh_capacity h then tl (entries h) else entries h)"
    and "vh_size (history_make_room h) < vh_capacity (history_make_room h)"
proof -
  note cl = history_okD(1) [OF assms] and c = history_okD(2) [OF assms]
    and h0 = history_okD(3,4) [OF assms]
    and n = history_okD(5,6) [OF assms] and t = history_okD(7) [OF assms]
  show "vh_size (history_make_room h) < vh_capacity (history_make_room h)"
    using n c by (simp add: history_make_room_def)
  show "history_ok (history_make_room h)"
  proof (cases "vh_size h = vh_capacity h")
    case False
    then show ?thesis using assms by (simp add: history_make_room_def)
  next
    case True
    have s: "(vh_head_idx h + 1) smod vh_capacity h = (vh_head_idx h + 1) mod vh_capacity h"
      using h0 c by (intro smod_nonneg) linarith+
    have "((vh_head_idx h + 1) mod vh_capacity h + (vh_size h - 1)) mod vh_capacity h =
          (vh_head_idx h + 1 + (vh_size h - 1)) mod vh_capacity h"
      by (rule mod_add_left_eq)
    also have "vh_head_idx h + 1 + (vh_size h - 1) = vh_head_idx h + vh_size h" by linarith
    finally have tl: "vh_tail_idx h =
        ((vh_head_idx h + 1) mod vh_capacity h + (vh_size h - 1)) mod vh_capacity h"
      by (simp only: t)
    have f: "vh_capacity (history_make_room h) = vh_capacity h"
      "vh_buffer (history_make_room h) = vh_buffer h"
      "vh_head_idx (history_make_room h) = (vh_head_idx h + 1) mod vh_capacity h"
      "vh_size (history_make_room h) = vh_size h - 1"
      "vh_tail_idx (history_make_room h) = vh_tail_idx h"
      using True by (simp_all add: history_make_room_def s)
    have "0 \<le> (vh_head_idx h + 1) mod vh_capacity h"
      "(vh_head_idx h + 1) mod vh_capacity h < vh_capacity h"
      using c by simp_all
    moreover have "0 \<le> vh_size h - 1" "vh_size h - 1 \<le> vh_capacity h"
      using True c by linarith+
    ultimately show ?thesis
      unfolding history_ok_def f using cl c tl by blast
  qed
  show "entries (history_make_room h) =
           (if vh_size h = vh_capacity h then tl (entries h) else entries h)"
  proof (cases "vh_size h = vh_capacity h")
    case False
    then show ?thesis by (simp add: history_make_room_def)
  next
    case True
    have s: "(vh_head_idx h + 1) smod vh_capacity h = (vh_head_idx h + 1) mod vh_capacity h"
      using h0 c by (intro smod_nonneg) linarith+
    have "nat ((vh_head_idx h + 1) mod vh_capacity h) = nat (vh_head_idx h + 1) mod nat (vh_capacity h)"
      using h0 c by (intro nat_mod_distrib) linarith+
    moreover have "nat (vh_head_idx h + 1) = Suc (nat (vh_head_idx h))" using h0 by linarith
    ultimately have hd: "nat ((vh_head_idx h + 1) smod vh_capacity h) =
        Suc (nat (vh_head_idx h)) mod nat (vh_capacity h)"
      by (simp only: s)
    have sz: "nat (vh_size h - 1) = nat (vh_size h) - 1" by linarith
    have "entries (history_make_room h) =
        ring_list (vh_buffer h) (nat (vh_capacity h))
          (nat ((vh_head_idx h + 1) smod vh_capacity h)) (nat (vh_size h - 1))"
      using True by (simp add: history_make_room_def entries_def)
    also have "\<dots> = ring_list (vh_buffer h) (nat (vh_capacity h))
          (Suc (nat (vh_head_idx h)) mod nat (vh_capacity h)) (nat (vh_size h) - 1)"
      by (simp only: hd sz)
    also have "\<dots> = tl (entries h)"
      unfolding entries_def by (rule ring_list_tl)
    finally show ?thesis using True by simp
  qed
qed

lemma history_store_ok:
  assumes "history_ok h" "vh_size h < vh_capacity h"
  shows "history_ok (history_store h ts v)"
    and "entries (history_store h ts v) = entries h @ [\<lparr>minute_ts_ms = ts, vwap = v\<rparr>]"
proof -
  note cl = history_okD(1) [OF assms(1)] and c = history_okD(2) [OF assms(1)]
    and h0 = history_okD(3,4) [OF assms(1)]
    and n = history_okD(5,6) [OF assms(1)] and t = history_okD(7) [OF assms(1)]
  have t0: "0 \<le> vh_tail_idx h" unfolding t using c by simp
  have s: "(vh_tail_idx h + 1) smod vh_capacity h = (vh_tail_idx h + 1) mod vh_capacity h"
    using t0 c by (intro smod_nonneg) linarith+
  have "(vh_tail_idx h + 1) mod vh_capacity h =
        ((vh_head_idx h + vh_size h) mod vh_capacity h + 1) mod vh_capacity h"
    by (simp only: t)
  also have "\<dots> = (vh_head_idx h + vh_size h + 1) mod vh_capacity h"
    by (rule mod_add_left_eq)
  also have "vh_head_idx h + vh_size h + 1 = vh_head_idx h + (vh_size h + 1)" by linarith
  finally have tl: "(vh_tail_idx h + 1) smod vh_capacity h =
      (vh_head_idx h + (vh_size h + 1)) mod vh_capacity h"
    by (simp only: s)
  have f: "vh_capacity (history_store h ts v) = vh_capacity h"
    "length (vh_buffer (history_store h ts v)) = length (vh_buffer h)"
    "vh_head_idx (history_store h ts v) = vh_head_idx h"
    "vh_size (history_store h ts v) = vh_size h + 1"
    "vh_tail_idx (history_store h ts v) = (vh_head_idx h + (vh_size h + 1)) mod vh_capacity h"
    using tl by (simp_all add: history_store_def)
  have "0 \<le> vh_size h + 1" "vh_size h + 1 \<le> vh_capacity h"
    using n assms(2) by linarith+
  then show "history_ok (history_store h ts v)"
    unfolding history_ok_def f using cl c h0 by blast
  have "nat ((vh_head_idx h + vh_size h) mod vh_capacity h) =
        nat (vh_head_idx h + vh_size h) mod nat (vh_capacity h)"
    using h0 n c by (intro nat_mod_distrib) linarith+
  moreover have "nat (vh_head_idx h + vh_size h) = nat (vh_head_idx h) + nat (vh_size h)"
    using h0 n by (intro nat_add_distrib)
  ultimately have nt: "nat (vh_tail_idx h) =
      (nat (vh_head_idx h) + nat (vh_size h)) mod nat (vh_capacity h)"
    by (simp only: t)
  have sz: "nat (vh_size h + 1) = Suc (nat (vh_size h))" using n by linarith
  have lt: "nat (vh_size h) < nat (vh_capacity h)" using assms(2) n by linarith
  have len: "length (vh_buffer h) = nat (vh_capacity h)" using cl by simp
  have "entries (history_store h ts v) =
      ring_list ((vh_buffer h)[(nat (vh_head_idx h) + nat (vh_size h)) mod nat (vh_capacity h) :=
          \<lparr>minute_ts_ms = ts, vwap = v\<rparr>])
        (nat (vh_capacity h)) (nat (vh_head_idx h)) (Suc (nat (vh_size h)))"
    by (simp add: history_store_def entries_def nt sz)
  also have "\<dots> = ring_list (vh_buffer h) (nat (vh_capacity h)) (nat (vh_head_idx h)) (nat (vh_size h))
        @ [\<lparr>minute_ts_ms = ts, vwap = v\<rparr>]"
    using lt len by (rule ring_list_snoc)
  finally show "entries (history_store h ts v) = entries h @ [\<lparr>minute_ts_ms = ts, vwap = v\<rparr>]"
    by (simp only: entries_def)
qed

lemma vwap_history_append_ok:
  assumes "history_ok h"
  shows "history_ok (vwap_history_append h ts v)"
    and "entries (vwap_history_append h ts v) =
           (if vh_size h = vh_capacity h then tl (entries h) else entries h) @
           [\<lparr>minute_ts_ms = ts, vwap = v\<rparr>]"
proof -
  note m = history_make_room_ok [OF assms]
  note s = history_store_ok [OF m(1) m(3), of ts v]
  show "history_ok (vwap_history_append h ts v)"
    using s(1) by (simp only: vwap_history_append_def)
  show "entries (vwap_history_append h ts v) =
           (if vh_size h = vh_capacity h then tl (entries h) else entries h) @
           [\<lparr>minute_ts_ms = ts, vwap = v\<rparr>]"
    using s(2) m(2) by (simp only: vwap_history_append_def)
qed

lemma vwap_history_init_ok:
  "0 < capacity \<Longrightarrow> history_ok (vwap_history_init capacity)"
  "entries (vwap_history_init capacity) = []"
  by (simp_all add: history_ok_def vwap_history_init_def entries_def ring_list_def)

text \<open>\<open>vwap_history_get_recent\<close> hands out the last \<open>n\<close> entries.\<close>

lemma vwap_history_get_recent_entries:
  assumes "history_ok h" "0 \<le> n" "n \<le> vh_size h"
  shows "vwap_history_get_recent h n = Some (drop (nat (vh_size h - n)) (entries h))"
proof -
  note cl = history_okD(1) [OF assms(1)] and c = history_okD(2) [OF assms(1)]
    and h0 = history_okD(3,4) [OF assms(1)]
    and sz = history_okD(5,6) [OF assms(1)] and t = history_okD(7) [OF assms(1)]
  let ?start = "(vh_tail_idx h - n + vh_capacity h) smod vh_capacity h"
  have t0: "0 \<le> vh_tail_idx h" unfolding t using c by simp
  have "?start = (vh_tail_idx h - n + vh_capacity h) mod vh_capacity h"
    using t0 c assms(3) sz by (intro smod_nonneg) linarith+
  also have "\<dots> = (vh_tail_idx h - n) mod vh_capacity h" by simp
  also have "\<dots> = ((vh_head_idx h + vh_size h) mod vh_capacity h - n) mod vh_capacity h"
    by (simp only: t)
  also have "\<dots> = (vh_head_idx h + vh_size h - n) mod vh_capacity h"
    by (rule mod_diff_left_eq)
  also have "vh_head_idx h + vh_size h - n = vh_head_idx h + (vh_size h - n)" by linarith
  finally have start: "?start = (vh_head_idx h + (vh_size h - n)) mod vh_capacity h" .
  have slot: "vh_buffer h ! nat ((?start + int i) smod vh_capacity h) =
      entries h ! (nat (vh_size h - n) + i)" if "i < nat n" for i
  proof -
    have nonneg: "0 \<le> ?start + int i"
      unfolding start using c by (simp add: add_nonneg_nonneg)
    have "(?start + int i) smod vh_capacity h = (?start + int i) mod vh_capacity h"
      using nonneg c by (rule smod_nonneg)
    also have "\<dots> = (vh_head_idx h + (vh_size h - n + int i)) mod vh_capacity h"
      unfolding start by (simp add: mod_add_left_eq add.assoc)
    also have "\<dots> = (vh_head_idx h + (vh_size h - n + int i)) smod vh_capacity h"
      using assms(3) h0 c by (intro smod_nonneg [symmetric]) linarith+
    finally have "vh_buffer h ! nat ((?start + int i) smod vh_capacity h) =
        vh_buffer h ! nat ((vh_head_idx h + (vh_size h - n + int i)) smod vh_capacity h)"
      by simp
    also have "\<dots> = entries h ! nat (vh_size h - n + int i)"
      using assms that by (intro history_slot) linarith+
    also have "nat (vh_size h - n + int i) = nat (vh_size h - n) + i"
      using assms(3) by linarith
    finally show ?thesis .
  qed
  have "recent_from h ?start n = drop (nat (vh_size h - n)) (entries h)"
  proof (rule nth_equalityI)
    show "length (recent_from h ?start n) = length (drop (nat (vh_size h - n)) (entries h))"
      using assms(2,3) by (simp add: recent_from_def)
    fix i assume "i < length (recent_from h ?start n)"
    then have i: "i < nat n" by (simp add: recent_from_def)
    then have "nat (vh_size h - n) + i \<le> length (entries h)" using assms(2,3) by simp
    then show "recent_from h ?start n ! i = drop (nat (vh_size h - n)) (entries h) ! i"
      using i slot [OF i] by (simp add: recent_from_def)
  qed
  then show ?thesis using assms(3) by (simp add: vwap_history_get_recent_def)
qed

section \<open>Self-correlation\<close>

lemma spaced_gap:
  assumes "spaced xs" "j + d < length xs"
  shows "xs ! j + int d * MS_PER_MINUTE \<le> xs ! (j + d)"
  using assms
proof (induction xs arbitrary: j d rule: spaced.induct)
  case (1 a b rest)
  have sp: "spaced (b # rest)" and ab: "a + MS_PER_MINUTE \<le> b"
    using "1.prems"(1) by simp_all
  show ?case
  proof (cases j)
    case (Suc j')
    have "j' + d < length (b # rest)" using "1.prems"(2) Suc by simp
    from "1.IH" [OF sp this] show ?thesis using Suc by simp
  next
    case j0: 0
    show ?thesis
    proof (cases d)
      case 0
      then show ?thesis by simp
    next
      case (Suc d')
      have "0 + d' < length (b # rest)" using "1.prems"(2) Suc j0 by simp
      from "1.IH" [OF sp this] have "b + int d' * MS_PER_MINUTE \<le> (b # rest) ! d'" by simp
      then show ?thesis using Suc j0 ab by (simp add: algebra_simps)
    qed
  qed
qed simp_all

lemma spaced_tl: "spaced xs \<Longrightarrow> spaced (tl xs)"
  by (induction xs rule: spaced.induct) simp_all

lemma spaced_snoc:
  "spaced xs \<Longrightarrow> (xs \<noteq> [] \<longrightarrow> last xs + MS_PER_MINUTE \<le> x) \<Longrightarrow> spaced (xs @ [x])"
  by (induction xs rule: spaced.induct) simp_all

text \<open>
  The minute-driven writer keeps the history spaced: a point appended for a minute
  at least one minute after the newest stored one leaves a well-formed history
  whose consecutive points are at least one minute apart.
\<close>

lemma writer_keeps_spacing:
  assumes "history_ok h" "minute_spaced h"
    and "entries h \<noteq> [] \<longrightarrow> minute_ts_ms (last (entries h)) + MS_PER_MINUTE \<le> current_minute_ms"
  shows "history_ok (vwap_history_append h current_minute_ms v)"
    and "minute_spaced (vwap_history_append h current_minute_ms v)"
    and "last (entries (vwap_history_append h current_minute_ms v)) =
           \<lparr>minute_ts_ms = current_minute_ms, vwap = v\<rparr>"
proof -
  note a = vwap_history_append_ok [OF assms(1), of current_minute_ms v]
  show "history_ok (vwap_history_append h current_minute_ms v)" by (rule a(1))
  show "last (entries (vwap_history_append h current_minute_ms v)) =
           \<lparr>minute_ts_ms = current_minute_ms, vwap = v\<rparr>"
    by (simp add: a(2))
  let ?old = "if vh_size h = vh_capacity h then tl (entries h) else entries h"
  have s: "spaced (map minute_ts_ms ?old)"
    using assms(2) spaced_tl [of "map minute_ts_ms (entries h)"]
    by (simp add: minute_spaced_def map_tl)
  have l: "?old \<noteq> [] \<longrightarrow> last (map minute_ts_ms ?old) + MS_PER_MINUTE \<le> current_minute_ms"
  proof
    assume ne: "?old \<noteq> []"
    then have ne0: "entries h \<noteq> []" by (auto split: if_splits)
    have "last ?old = last (entries h)"
      using ne by (auto simp: last_tl split: if_splits)
    then show "last (map minute_ts_ms ?old) + MS_PER_MINUTE \<le> current_minute_ms"
      using assms(3) ne ne0 by (simp add: last_map)
  qed
  have "spaced (map minute_ts_ms ?old @ [current_minute_ms])"
    using s l by (intro spaced_snoc) simp_all
  then show "minute_spaced (vwap_history_append h current_minute_ms v)"
    by (simp add: minute_spaced_def a(2))
qed

lemma best_target_fold:
  fixes symbols src i
  defines "best \<equiv> \<lambda>j. find_best_lagged_correlation src (vwap_hist (symbols ! j)) MOVING_AVG_POINTS
                         (if i = j then MOVING_AVG_POINTS else 0) MAX_LAG_MINUTES"
  shows "let st = fold (target_step symbols src i) js
                    \<lparr>best_corr_for_symbol = 0, best_ts_for_symbol = 0, best_j = - 1, found_any = False\<rparr>
         in (found_any st \<longleftrightarrow> (\<exists>j \<in> set js. \<not> isnan (fst (best j)))) \<and>
            (found_any st \<longrightarrow>
               (\<exists>j \<in> set js. best_j st = int j \<and> \<not> isnan (fst (best j)) \<and>
                  (best_corr_for_symbol st, best_ts_for_symbol st) = best j))"
proof (induction js rule: rev_induct)
  case Nil
  then show ?case by simp
next
  case (snoc x xs)
  let ?st = "fold (target_step symbols src i) xs
                    \<lparr>best_corr_for_symbol = 0, best_ts_for_symbol = 0, best_j = - 1, found_any = False\<rparr>"
  have step: "fold (target_step symbols src i) (xs @ [x])
                    \<lparr>best_corr_for_symbol = 0, best_ts_for_symbol = 0, best_j = - 1, found_any = False\<rparr>
      = target_update (int x) (best x) ?st"
    by (simp add: target_step_def best_def)
  have ih1: "found_any ?st \<longleftrightarrow> (\<exists>j \<in> set xs. \<not> isnan (fst (best j)))"
    and ih2: "found_any ?st \<Longrightarrow> \<exists>j \<in> set xs. best_j ?st = int j \<and> \<not> isnan (fst (best j)) \<and>
                  (best_corr_for_symbol ?st, best_ts_for_symbol ?st) = best j"
    using snoc.IH by (simp_all add: Let_def)
  show ?case
  proof (cases "isnan (fst (best x))")
    case True
    then have "target_update (int x) (best x) ?st = ?st" by (simp add: target_update_def)
    then show ?thesis
      unfolding Let_def step using ih1 ih2 True by auto
  next
    case nn: False
    show ?thesis
    proof (cases "\<not> found_any ?st \<or> fabs (best_corr_for_symbol ?st) < fabs (fst (best x))")
      case True
      then have "target_update (int x) (best x) ?st =
          \<lparr>best_corr_for_symbol = fst (best x), best_ts_for_symbol = snd (best x),
           best_j = int x, found_any = True\<rparr>"
        using nn by (simp add: target_update_def)
      then show ?thesis
        unfolding Let_def step using nn by auto
    next
      case False
      then have same: "target_update (int x) (best x) ?st = ?st"
        using nn by (simp add: target_update_def)
      have "found_any ?st" using False by simp
      then show ?thesis
        unfolding Let_def step same using ih2 nn by auto
    qed
  qed
qed

lemma best_target_char:
  assumes "found_any (best_target symbols src i)"
  shows "\<exists>j < NUM_SYMBOLS. best_j (best_target symbols src i) = int j \<and>
           \<not> isnan (best_corr_for_symbol (best_target symbols src i)) \<and>
           (best_corr_for_symbol (best_target symbols src i),
            best_ts_for_symbol (best_target symbols src i)) =
             find_best_lagged_correlation src (vwap_hist (symbols ! j)) MOVING_AVG_POINTS
               (if i = j then MOVING_AVG_POINTS else 0) MAX_LAG_MINUTES"
proof -
  let ?st = "best_target symbols src i"
  let ?best = "\<lambda>j. find_best_lagged_correlation src (vwap_hist (symbols ! j)) MOVING_AVG_POINTS
                         (if i = j then MOVING_AVG_POINTS else 0) MAX_LAG_MINUTES"
  from best_target_fold [of symbols src i "[0..<NUM_SYMBOLS]"] assms
  obtain j where j: "j \<in> set [0..<NUM_SYMBOLS]" "best_j ?st = int j" "\<not> isnan (fst (?best j))"
    "(best_corr_for_symbol ?st, best_ts_for_symbol ?st) = ?best j"
    unfolding best_target_def Let_def by blast
  from j(4) have "best_corr_for_symbol ?st = fst (?best j)" by (metis fst_conv)
  then show ?thesis using j by auto
qed

lemma best_target_none:
  assumes "\<And>j. j < NUM_SYMBOLS \<Longrightarrow>
     isnan (fst (find_best_lagged_correlation src (vwap_hist (symbols ! j)) MOVING_AVG_POINTS
               (if i = j then MOVING_AVG_POINTS else 0) MAX_LAG_MINUTES))"
  shows "\<not> found_any (best_target symbols src i)"
proof -
  from best_target_fold [of symbols src i "[0..<NUM_SYMBOLS]"] assms
  show ?thesis unfolding best_target_def Let_def by auto
qed

lemma find_best_found:
  assumes ok: "history_ok h" and P: "1 \<le> P" and lo: "0 \<le> lo"
    and nn: "\<not> isnan (fst (find_best_lagged_correlation src h P lo cap))"
  shows "\<exists>b \<in> {lo..min (vh_size h - P) cap}.
           find_best_lagged_correlation src h P lo cap = (candidate_corr src h P b, candidate_end h P b)"
proof -
  have len: "P + lo \<le> vh_size h"
  proof (rule ccontr)
    assume "\<not> P + lo \<le> vh_size h"
    then have "find_best_lagged_correlation src h P lo cap = (NaN, 0)"
      by (simp add: find_best_lagged_correlation_def)
    then show False using nn by simp
  qed
  have m: "(if cap < vh_size h - P then cap else vh_size h - P) = min (vh_size h - P) cap"
    by (simp add: min_def)
  have r: "find_best_lagged_correlation src h P lo cap =
      lag_search_from src h P lo (min (vh_size h - P) cap)"
    using len by (simp add: find_best_lagged_correlation_def m)
  have hi: "min (vh_size h - P) cap \<le> vh_size h - P" by simp
  note s = lag_search_from_spec [OF ok P lo hi, of src]
  have "\<exists>k \<in> {lo..min (vh_size h - P) cap}. \<not> isnan (candidate_corr src h P k)"
  proof (rule ccontr)
    assume "\<not> ?thesis"
    then have "lag_search_from src h P lo (min (vh_size h - P) cap) = (NaN, 0)"
      using s by blast
    then show False using nn r by simp
  qed
  then obtain b where "first_largest (candidate_corr src h P) {lo..min (vh_size h - P) cap} b"
    "lag_search_from src h P lo (min (vh_size h - P) cap) = (candidate_corr src h P b, candidate_end h P b)"
    using s by blast
  then show ?thesis unfolding r first_largest_def by blast
qed

lemma candidate_end_bound:
  assumes ok: "history_ok h" and sp: "minute_spaced h" and P: "1 \<le> P"
    and b: "0 \<le> b" "b \<le> vh_size h - P"
  shows "candidate_end h P b + b * MS_PER_MINUTE \<le> minute_ts_ms (last (entries h))"
proof -
  let ?xs = "map minute_ts_ms (entries h)"
  let ?j = "nat (vh_size h - 1 - b)"
  have sz: "1 \<le> vh_size h" using P b by linarith
  have jd: "?j + nat b = nat (vh_size h) - 1" using b P by linarith
  have lt: "?j + nat b < length ?xs" using jd sz by simp
  have ne: "entries h \<noteq> []"
  proof
    assume "entries h = []"
    then have "length (entries h) = 0" by simp
    then have "nat (vh_size h) = 0" by (simp only: entries_length)
    then show False using sz by linarith
  qed
  from spaced_gap [OF _ lt] sp
  have g: "?xs ! ?j + int (nat b) * MS_PER_MINUTE \<le> ?xs ! (?j + nat b)"
    by (simp add: minute_spaced_def)
  have "?xs ! (?j + nat b) = minute_ts_ms (entries h ! (length (entries h) - 1))"
    using lt jd by simp
  also have "\<dots> = minute_ts_ms (last (entries h))"
    using ne by (simp add: last_conv_nth)
  finally have l: "?xs ! (?j + nat b) = minute_ts_ms (last (entries h))" .
  have "?j < nat (vh_size h)" using b P by linarith
  then have "?xs ! ?j = minute_ts_ms (entries h ! ?j)" by simp
  also have "\<dots> = candidate_end h P b"
    using end_minute_candidate(2) [OF ok b P] by simp
  finally have c: "?xs ! ?j = candidate_end h P b" .
  show ?thesis using g b(1) unfolding l c by simp
qed

text \<open>
  C5. The source symbol \<open>i\<close> is searched against its own history with minimal offset
  \<open>MOVING_AVG_POINTS\<close>. So when that history is well formed, its points are at least a
  minute apart and none is later than the current minute (the writer appends one
  point per minute), a row whose best-matching symbol is the source itself carries
  the result of the search from offset 8, found at an offset between 8 and 60, and
  the minute of the last point of its window is at most the current minute less 8
  minutes.
\<close>

theorem self_correlation_skips_overlap:
  assumes ok: "history_ok (vwap_hist (symbols ! i))"
    and sp: "minute_spaced (vwap_hist (symbols ! i))"
    and newest: "minute_ts_ms (last (entries (vwap_hist (symbols ! i)))) \<le> current_minute_ms"
    and row: "correlation_row_for symbols current_minute_ms i = Some row"
    and self: "correlated_with row = int i"
  shows "(\<exists>src_points_buf.
            vwap_history_get_recent (vwap_hist (symbols ! i)) MOVING_AVG_POINTS = Some src_points_buf \<and>
            (correlation row, lag_timestamp_ms row) =
              find_best_lagged_correlation (map vwap src_points_buf) (vwap_hist (symbols ! i))
                MOVING_AVG_POINTS MOVING_AVG_POINTS MAX_LAG_MINUTES \<and>
            (\<exists>b. MOVING_AVG_POINTS \<le> b \<and> b \<le> MAX_LAG_MINUTES \<and>
                 lag_timestamp_ms row = candidate_end (vwap_hist (symbols ! i)) MOVING_AVG_POINTS b)) \<and>
         lag_timestamp_ms row \<le> current_minute_ms - MOVING_AVG_POINTS * MS_PER_MINUTE"
proof -
  let ?h = "vwap_hist (symbols ! i)"
  obtain pts where g: "vwap_history_get_recent ?h MOVING_AVG_POINTS = Some pts"
    and r: "row_of i current_minute_ms (best_target symbols (map vwap pts) i) = Some row"
    using row unfolding correlation_row_for_def by (auto split: option.splits)
  let ?st = "best_target symbols (map vwap pts) i"
  have f: "found_any ?st" using r by (auto simp: row_of_def split: if_splits)
  have fields: "correlated_with row = best_j ?st" "correlation row = best_corr_for_symbol ?st"
    "lag_timestamp_ms row = best_ts_for_symbol ?st"
    using r by (auto simp: row_of_def split: if_splits)
  from best_target_char [OF f] obtain j where j: "best_j ?st = int j"
    "\<not> isnan (best_corr_for_symbol ?st)"
    "(best_corr_for_symbol ?st, best_ts_for_symbol ?st) =
       find_best_lagged_correlation (map vwap pts) (vwap_hist (symbols ! j)) MOVING_AVG_POINTS
         (if i = j then MOVING_AVG_POINTS else 0) MAX_LAG_MINUTES"
    by blast
  have ji: "j = i" using j(1) self fields(1) by simp
  have pair: "(correlation row, lag_timestamp_ms row) =
      find_best_lagged_correlation (map vwap pts) ?h MOVING_AVG_POINTS MOVING_AVG_POINTS MAX_LAG_MINUTES"
    using j(3) ji fields by simp
  have nn: "\<not> isnan (fst (find_best_lagged_correlation (map vwap pts) ?h
              MOVING_AVG_POINTS MOVING_AVG_POINTS MAX_LAG_MINUTES))"
    using j(2) pair fields by (metis fst_conv)
  have P1: "1 \<le> MOVING_AVG_POINTS" and P0: "0 \<le> MOVING_AVG_POINTS"
    by (simp_all add: MOVING_AVG_POINTS_def)
  from find_best_found [OF ok P1 P0 nn] obtain b where
    b: "MOVING_AVG_POINTS \<le> b" "b \<le> min (vh_size ?h - MOVING_AVG_POINTS) MAX_LAG_MINUTES"
    and res: "find_best_lagged_correlation (map vwap pts) ?h
        MOVING_AVG_POINTS MOVING_AVG_POINTS MAX_LAG_MINUTES =
        (candidate_corr (map vwap pts) ?h MOVING_AVG_POINTS b, candidate_end ?h MOVING_AVG_POINTS b)"
    by auto
  have ts: "lag_timestamp_ms row = candidate_end ?h MOVING_AVG_POINTS b"
    using pair res by simp
  have b0: "0 \<le> b" using b(1) P0 by linarith
  have b1: "b \<le> vh_size ?h - MOVING_AVG_POINTS" and b2: "b \<le> MAX_LAG_MINUTES"
    using b(2) by simp_all
  from candidate_end_bound [OF ok sp P1 b0 b1]
  have "candidate_end ?h MOVING_AVG_POINTS b + b * MS_PER_MINUTE \<le> current_minute_ms"
    using newest by linarith
  moreover have "MOVING_AVG_POINTS * MS_PER_MINUTE \<le> b * MS_PER_MINUTE"
    using b(1) by (simp add: MS_PER_MINUTE_def)
  ultimately have bound: "lag_timestamp_ms row \<le> current_minute_ms - MOVING_AVG_POINTS * MS_PER_MINUTE"
    unfolding ts by linarith
  show ?thesis using g pair ts b(1) b2 bound by blast
qed

lemma vwap_history_append_size:
  "vh_size h \<noteq> vh_capacity h \<Longrightarrow> vh_size (vwap_history_append h ts v) = vh_size h + 1"
  "vh_capacity (vwap_history_append h ts v) = vh_capacity h"
  by (simp_all add: vwap_history_append_def history_store_def history_make_room_def)

lemma record_minutes_ok:
  assumes "history_ok h" "vh_size h + int (length pts) \<le> vh_capacity h"
  shows "history_ok (record_minutes pts h) \<and> entries (record_minutes pts h) = entries h @ pts \<and>
         vh_size (record_minutes pts h) = vh_size h + int (length pts) \<and>
         vh_capacity (record_minutes pts h) = vh_capacity h"
  using assms
proof (induction pts arbitrary: h)
  case Nil
  then show ?case by (simp add: record_minutes_def)
next
  case (Cons p pts)
  let ?h = "vwap_history_append h (minute_ts_ms p) (vwap p)"
  have ne: "vh_size h \<noteq> vh_capacity h" using Cons.prems(2) by simp
  note a = vwap_history_append_ok [OF Cons.prems(1), of "minute_ts_ms p" "vwap p"]
  note s = vwap_history_append_size(1) [OF ne, of "minute_ts_ms p" "vwap p"]
    vwap_history_append_size(2) [of h "minute_ts_ms p" "vwap p"]
  have e: "entries ?h = entries h @ [p]" using a(2) ne by simp
  have "vh_size ?h + int (length pts) \<le> vh_capacity ?h"
    using Cons.prems(2) s by simp
  from Cons.IH [OF a(1) this]
  have "history_ok (record_minutes pts ?h) \<and> entries (record_minutes pts ?h) = entries ?h @ pts \<and>
         vh_size (record_minutes pts ?h) = vh_size ?h + int (length pts) \<and>
         vh_capacity (record_minutes pts ?h) = vh_capacity ?h" .
  moreover have "record_minutes (p # pts) h = record_minutes pts ?h"
    by (simp add: record_minutes_def)
  ultimately show ?case using e s by simp
qed

lemma recorded_history:
  assumes "int (length pts) \<le> VWAP_HISTORY_SIZE_MINUTES"
  shows "history_ok (record_minutes pts (vwap_history_init VWAP_HISTORY_SIZE_MINUTES))"
    and "entries (record_minutes pts (vwap_history_init VWAP_HISTORY_SIZE_MINUTES)) = pts"
    and "vh_size (record_minutes pts (vwap_history_init VWAP_HISTORY_SIZE_MINUTES)) = int (length pts)"
proof -
  let ?h = "vwap_history_init VWAP_HISTORY_SIZE_MINUTES"
  have c: "0 < VWAP_HISTORY_SIZE_MINUTES"
    by (simp add: VWAP_HISTORY_SIZE_MINUTES_def MAX_LAG_MINUTES_def MOVING_AVG_POINTS_def)
  have ok: "history_ok ?h" using c by (rule vwap_history_init_ok(1))
  have z: "vh_size ?h = 0" "vh_capacity ?h = VWAP_HISTORY_SIZE_MINUTES"
    by (simp_all add: vwap_history_init_def)
  have "vh_size ?h + int (length pts) \<le> vh_capacity ?h" using assms z by simp
  from record_minutes_ok [OF ok this]
  show "history_ok (record_minutes pts ?h)" "entries (record_minutes pts ?h) = pts"
    "vh_size (record_minutes pts ?h) = int (length pts)"
    using z by (simp_all add: vwap_history_init_ok(2))
qed

lemma lag_step_entries:
  assumes "history_ok h" "1 \<le> P" "0 \<le> k" "k \<le> vh_size h - P"
  shows "lag_step src h P k st = lag_update (candidate_corr src h P k) (candidate_end h P k) st"
  using target_vec_candidate [OF assms(1,3,4)] end_minute_candidate(1) [OF assms(1,3,4,2)]
  by (simp add: lag_step_def lag_at_def candidate_corr_def)

lemmas pearson_eval =
  pearson_correlation_def pearson_of_sums_def pearson_loop_def pearson_step_def
  pearson_numerator_def pearson_denominator_def variance_term_def pearson_ratio_def

lemmas history_eval =
  candidate_corr_def candidate_end_def candidate_window_def minutes_from_def MS_PER_MINUTE_def
  MOVING_AVG_POINTS_def MAX_LAG_MINUTES_def VWAP_HISTORY_SIZE_MINUTES_def

theorem find_best_lagged_correlation_spec_witness:
  "find_best_lagged_correlation [d_of_int 1, d_of_int 2]
     (record_minutes (minutes_from 1 [d_of_int 1, d_of_int 2, d_of_int 4, d_of_int 3])
        (vwap_history_init VWAP_HISTORY_SIZE_MINUTES)) 2 0 MAX_LAG_MINUTES =
   (d_of_int (- 1), 4 * MS_PER_MINUTE)"
proof -
  let ?pts = "minutes_from 1 [d_of_int 1, d_of_int 2, d_of_int 4, d_of_int 3]"
  let ?h = "record_minutes ?pts (vwap_history_init VWAP_HISTORY_SIZE_MINUTES)"
  let ?src = "[d_of_int 1, d_of_int 2]"
  have len: "int (length ?pts) \<le> VWAP_HISTORY_SIZE_MINUTES"
    by (simp add: history_eval)
  note h = recorded_history [OF len]
  have sz: "vh_size ?h = 4" using h(3) by (simp add: minutes_from_def)
  have c0: "candidate_corr ?src ?h 2 0 = d_of_int (- 1)"
    unfolding candidate_corr_def candidate_window_def h(2) sz
    by (simp add: minutes_from_def pearson_eval double_eval upt_rec)
  have c1: "candidate_corr ?src ?h 2 1 = d_of_int 1"
    unfolding candidate_corr_def candidate_window_def h(2) sz
    by (simp add: minutes_from_def pearson_eval double_eval upt_rec)
  have c2: "candidate_corr ?src ?h 2 2 = d_of_int 1"
    unfolding candidate_corr_def candidate_window_def h(2) sz
    by (simp add: minutes_from_def pearson_eval double_eval upt_rec)
  have e0: "candidate_end ?h 2 0 = 4 * MS_PER_MINUTE"
    unfolding candidate_end_def candidate_window_def h(2) sz
    by (simp add: minutes_from_def MS_PER_MINUTE_def upt_rec)
  have S: "{0..min (vh_size ?h - 2) MAX_LAG_MINUTES} = {0, 1, 2}"
    unfolding sz by (auto simp: MAX_LAG_MINUTES_def)
  have nn: "\<exists>k \<in> {0..min (vh_size ?h - 2) MAX_LAG_MINUTES}. \<not> isnan (candidate_corr ?src ?h 2 k)"
    unfolding S using c0 by (simp add: double_eval)
  have "2 + 0 \<le> vh_size ?h" using sz by simp
  with find_best_lagged_correlation_spec [OF h(1), of 2 0 ?src MAX_LAG_MINUTES] nn
  obtain b where b: "first_largest (candidate_corr ?src ?h 2) {0, 1, 2} b"
    and r: "find_best_lagged_correlation ?src ?h 2 0 MAX_LAG_MINUTES =
              (candidate_corr ?src ?h 2 b, candidate_end ?h 2 b)"
    unfolding S by (auto simp: MOVING_AVG_POINTS_def)
  have "b = 0"
  proof (rule ccontr)
    assume "b \<noteq> 0"
    then have "b = 1 \<or> b = 2" "0 < b" using b by (auto simp: first_largest_def)
    moreover have "fabs (candidate_corr ?src ?h 2 0) < fabs (candidate_corr ?src ?h 2 b)"
      using b \<open>0 < b\<close> c0 unfolding first_largest_def by (simp add: double_eval)
    ultimately show False using c0 c1 c2 by (auto simp: double_eval)
  qed
  then show ?thesis using r c0 e0 by simp
qed

lemma symbols_after_hist:
  assumes "length recorded = NUM_SYMBOLS" "j < NUM_SYMBOLS"
  shows "vwap_hist (symbols_after recorded ! j) =
           record_minutes (recorded ! j) (vwap_history_init VWAP_HISTORY_SIZE_MINUTES)"
proof -
  have l: "length SYMBOLS = NUM_SYMBOLS" by (simp add: SYMBOLS_def NUM_SYMBOLS_def)
  have "j < length (zip SYMBOLS recorded)" using assms l by simp
  then have "symbols_after recorded ! j =
      (\<lambda>(name, pts). (symbol_init name)\<lparr>vwap_hist :=
            record_minutes pts (vwap_history_init VWAP_HISTORY_SIZE_MINUTES)\<rparr>)
        (zip SYMBOLS recorded ! j)"
    unfolding symbols_after_def by (rule nth_map)
  also have "zip SYMBOLS recorded ! j = (SYMBOLS ! j, recorded ! j)"
    using assms l by (intro nth_zip) simp_all
  finally show ?thesis by simp
qed

lemma find_best_short:
  "vh_size h < P + lo \<Longrightarrow> find_best_lagged_correlation src h P lo cap = (NaN, 0)"
  by (simp add: find_best_lagged_correlation_def)

lemma find_best_single:
  assumes "history_ok h" "1 \<le> P" "0 \<le> lo" "vh_size h = P + lo" "lo \<le> cap"
  shows "find_best_lagged_correlation src h P lo cap =
           (if isnan (candidate_corr src h P lo) then (NaN, 0)
            else (candidate_corr src h P lo, candidate_end h P lo))"
proof -
  have u: "[lo..lo] = [lo]" by (simp add: upto_rec1)
  have k: "lo \<le> vh_size h - P" using assms(4) by simp
  have "find_best_lagged_correlation src h P lo cap = lag_search_from src h P lo lo"
    using assms(4,5) by (simp add: find_best_lagged_correlation_def)
  also have "\<dots> = lag_result (lag_update (candidate_corr src h P lo) (candidate_end h P lo)
       \<lparr>best_corr_val = 0, best_end_minute_ms = 0, found_match = False\<rparr>)"
    unfolding lag_search_from_def u
    by (simp add: lag_step_entries [OF assms(1,2,3) k])
  finally show ?thesis by (simp add: lag_update_def lag_result_def)
qed

lemma row_single_target:
  fixes symbols pts i
  defines "best \<equiv> \<lambda>j. find_best_lagged_correlation (map vwap pts) (vwap_hist (symbols ! j))
                         MOVING_AVG_POINTS (if i = j then MOVING_AVG_POINTS else 0) MAX_LAG_MINUTES"
  assumes g: "vwap_history_get_recent (vwap_hist (symbols ! i)) MOVING_AVG_POINTS = Some pts"
    and k: "k < NUM_SYMBOLS" "\<not> isnan (fst (best k))"
    and others: "\<And>j. j < NUM_SYMBOLS \<Longrightarrow> j \<noteq> k \<Longrightarrow> isnan (fst (best j))"
  shows "correlation_row_for symbols current_minute_ms i =
           Some \<lparr>row_symbol = i, row_minute_ms = current_minute_ms, correlated_with = int k,
                 correlation = fst (best k), lag_timestamp_ms = snd (best k)\<rparr>"
proof -
  let ?st = "best_target symbols (map vwap pts) i"
  from best_target_fold [of symbols "map vwap pts" i "[0..<NUM_SYMBOLS]"]
  have f: "found_any ?st \<longleftrightarrow> (\<exists>j \<in> set [0..<NUM_SYMBOLS]. \<not> isnan (fst (best j)))"
    unfolding best_target_def Let_def best_def by blast
  have fa: "found_any ?st" unfolding f using k by auto
  from best_target_char [OF fa] obtain j where j: "j < NUM_SYMBOLS" "best_j ?st = int j"
    "\<not> isnan (best_corr_for_symbol ?st)"
    "(best_corr_for_symbol ?st, best_ts_for_symbol ?st) = best j"
    unfolding best_def by blast
  have "\<not> isnan (fst (best j))" using j(3,4) by (metis fst_conv)
  then have jk: "j = k" using others j(1) by blast
  have "best_corr_for_symbol ?st = fst (best k)" "best_ts_for_symbol ?st = snd (best k)"
    using j(4) jk by (metis fst_conv, metis snd_conv)
  then show ?thesis
    using g fa j(2) jk by (simp add: correlation_row_for_def row_of_def)
qed

theorem self_correlation_skips_overlap_witness:
  "\<exists>row. correlation_row_for
            (symbols_after
               (minutes_from 1 (map d_of_int [1, 2, 3, 4, 5, 6, 7, 8, 2, 1, 4, 3, 6, 5, 8, 7]) #
                replicate 7 []))
            (16 * MS_PER_MINUTE) 0 = Some row \<and>
         correlated_with row = 0 \<and>
         lag_timestamp_ms row = 8 * MS_PER_MINUTE \<and>
         lag_timestamp_ms row \<le> 16 * MS_PER_MINUTE - MOVING_AVG_POINTS * MS_PER_MINUTE"
proof -
  define pts where "pts = minutes_from 1 (map d_of_int [1, 2, 3, 4, 5, 6, 7, 8, 2, 1, 4, 3, 6, 5, 8, 7])"
  define init where "init = vwap_history_init VWAP_HISTORY_SIZE_MINUTES"
  define h where "h = record_minutes pts init"
  define S where "S = symbols_after (pts # replicate 7 [])"
  define src where "src = map vwap (drop 8 pts)"
  define best where "best = (\<lambda>j. find_best_lagged_correlation src (vwap_hist (S ! j))
                         MOVING_AVG_POINTS (if 0 = j then MOVING_AVG_POINTS else 0) MAX_LAG_MINUTES)"
  have n: "length (pts # replicate 7 []) = NUM_SYMBOLS" by (simp add: NUM_SYMBOLS_def)
  have z: "0 < NUM_SYMBOLS" by (simp add: NUM_SYMBOLS_def)
  have h0: "vwap_hist (S ! 0) = h"
    using symbols_after_hist [OF n z] by (simp add: S_def h_def init_def)
  have hj: "vwap_hist (S ! j) = record_minutes [] init" if "j < NUM_SYMBOLS" "j \<noteq> 0" for j
    using symbols_after_hist [OF n that(1)] that
    by (simp add: NUM_SYMBOLS_def nth_Cons' S_def init_def)
  have l16: "length pts = 16" by (simp add: pts_def minutes_from_def)
  have len: "int (length pts) \<le> VWAP_HISTORY_SIZE_MINUTES"
    unfolding l16 by (simp add: history_eval)
  have ok: "history_ok h" and en: "entries h = pts" and sz: "vh_size h = 16"
    using recorded_history [OF len] l16 by (simp_all add: h_def init_def)
  have g: "vwap_history_get_recent (vwap_hist (S ! 0)) MOVING_AVG_POINTS = Some (drop 8 pts)"
    unfolding h0 using vwap_history_get_recent_entries [OF ok, of MOVING_AVG_POINTS]
    by (simp add: sz en MOVING_AVG_POINTS_def)
  have b0: "best 0 = (if isnan (candidate_corr src h 8 8) then (NaN, 0)
                       else (candidate_corr src h 8 8, candidate_end h 8 8))"
    unfolding best_def h0 using find_best_single [OF ok, of 8 8 60 src]
    by (simp add: sz MOVING_AVG_POINTS_def MAX_LAG_MINUTES_def)
  have cc: "\<not> isnan (candidate_corr src h 8 8)"
    unfolding candidate_corr_def candidate_window_def en sz src_def pts_def
    by (simp add: minutes_from_def pearson_eval double_eval upt_rec)
  have ce: "candidate_end h 8 8 = 8 * MS_PER_MINUTE"
    unfolding candidate_end_def candidate_window_def en sz pts_def
    by (simp add: minutes_from_def MS_PER_MINUTE_def upt_rec)
  have k: "\<not> isnan (fst (best 0))" unfolding b0 using cc by simp
  have others: "isnan (fst (best j))" if "j < NUM_SYMBOLS" "j \<noteq> 0" for j
  proof -
    have "int (length ([]::vwap_point list)) \<le> VWAP_HISTORY_SIZE_MINUTES"
      by (simp add: history_eval)
    from recorded_history(3) [OF this] have "vh_size (vwap_hist (S ! j)) = 0"
      unfolding hj [OF that] init_def by simp
    then have "best j = (NaN, 0)"
      unfolding best_def using that(2) by (intro find_best_short) (simp add: MOVING_AVG_POINTS_def)
    then show ?thesis by simp
  qed
  define row where "row = \<lparr>row_symbol = 0, row_minute_ms = 16 * MS_PER_MINUTE, correlated_with = int 0,
                 correlation = fst (best 0), lag_timestamp_ms = snd (best 0)\<rparr>"
  have r: "correlation_row_for S (16 * MS_PER_MINUTE) 0 = Some row"
    unfolding row_def best_def src_def
    by (rule row_single_target [OF g z k [unfolded best_def src_def] others [unfolded best_def src_def]])
  have ok0: "history_ok (vwap_hist (S ! 0))" unfolding h0 by (rule ok)
  have sp: "minute_spaced (vwap_hist (S ! 0))"
    unfolding h0 minute_spaced_def en pts_def
    by (simp add: minutes_from_def MS_PER_MINUTE_def upt_rec)
  have newest: "minute_ts_ms (last (entries (vwap_hist (S ! 0)))) \<le> 16 * MS_PER_MINUTE"
    unfolding h0 en pts_def by (simp add: minutes_from_def MS_PER_MINUTE_def upt_rec)
  have self: "correlated_with row = int 0" by (simp add: row_def)
  from self_correlation_skips_overlap [OF ok0 sp newest r self]
  have "lag_timestamp_ms row \<le> 16 * MS_PER_MINUTE - MOVING_AVG_POINTS * MS_PER_MINUTE"
    by blast
  moreover have "lag_timestamp_ms row = 8 * MS_PER_MINUTE"
    using b0 cc ce by (simp add: row_def)
  ultimately show ?thesis using r self unfolding S_def pts_def by auto
qed

section \<open>Extending the maximal lag\<close>

lemma eq_aligned_iff:
  "eq_aligned m1 e1 m2 e2 (min e1 e2) \<longleftrightarrow>
     real_of_int m1 * 2 powi e1 = real_of_int m2 * 2 powi e2"
proof -
  let ?e = "min e1 e2"
  have p: "(2::real) powi ?e \<noteq> 0" by simp
  have "eq_aligned m1 e1 m2 e2 ?e \<longleftrightarrow>
      real_of_int (m1 * 2 ^ nat (e1 - ?e)) = real_of_int (m2 * 2 ^ nat (e2 - ?e))"
    unfolding eq_aligned_def by (simp only: of_int_eq_iff)
  also have "\<dots> \<longleftrightarrow> real_of_int (m1 * 2 ^ nat (e1 - ?e)) * 2 powi ?e
                   = real_of_int (m2 * 2 ^ nat (e2 - ?e)) * 2 powi ?e"
    using p by (simp only: mult_cancel_right simp_thms)
  also have "\<dots> \<longleftrightarrow> real_of_int m1 * 2 powi e1 = real_of_int m2 * 2 powi e2"
    by (simp only: of_int_shift [OF min.cobounded1] of_int_shift [OF min.cobounded2])
  finally show ?thesis .
qed

lemma deq_Fin: "deq (Fin m1 e1) (Fin m2 e2) \<longleftrightarrow> dval (Fin m1 e1) = dval (Fin m2 e2)"
proof (cases "m1 = 0 \<or> m2 = 0")
  case True
  then show ?thesis by (auto simp: dval_def)
next
  case False
  then show ?thesis
    by (simp only: dval_def deq.simps double.case if_False eq_aligned_iff)
qed

lemma double_le_iff:
  fixes a b :: double
  assumes "\<not> isnan a" "\<not> isnan b"
  shows "a \<le> b \<longleftrightarrow> \<not> b < a"
  using assms unfolding less_eq_double_def less_double_def
  by (cases a; cases b; simp del: dless.simps(1) deq.simps(1) add: dless_Fin deq_Fin) auto

lemma find_best_one:
  assumes "history_ok h" "1 \<le> P" "0 \<le> lo" "P + lo \<le> vh_size h"
  shows "find_best_lagged_correlation src h P lo lo =
           (if isnan (candidate_corr src h P lo) then (NaN, 0)
            else (candidate_corr src h P lo, candidate_end h P lo))"
proof -
  have u: "[lo..lo] = [lo]" by (simp add: upto_rec1)
  have k: "lo \<le> vh_size h - P" using assms(4) by simp
  have hi: "(if lo < vh_size h - P then lo else vh_size h - P) = lo"
    using assms(4) by simp
  have "find_best_lagged_correlation src h P lo lo = lag_search_from src h P lo lo"
    using assms(4) unfolding find_best_lagged_correlation_def hi by simp
  also have "\<dots> = lag_result (lag_update (candidate_corr src h P lo) (candidate_end h P lo)
       \<lparr>best_corr_val = 0, best_end_minute_ms = 0, found_match = False\<rparr>)"
    unfolding lag_search_from_def u
    by (simp add: lag_step_entries [OF assms(1,2,3) k])
  finally show ?thesis by (simp add: lag_update_def lag_result_def)
qed

text \<open>
  C7. With the source, the history, the window length and the minimal offset fixed,
  and \<open>cap1 \<le> cap2\<close>: when the search with cap \<open>cap1\<close> finds a correlation, so does
  the search with cap \<open>cap2\<close>, and the absolute value of what it finds is at least
  as large.
\<close>

theorem best_lag_monotone:
  assumes "cap1 \<le> cap2"
  shows "\<not> isnan (fst (find_best_lagged_correlation src h P lo cap1)) \<longrightarrow>
           \<not> isnan (fst (find_best_lagged_correlation src h P lo cap2)) \<and>
           fabs (fst (find_best_lagged_correlation src h P lo cap1)) \<le>
           fabs (fst (find_best_lagged_correlation src h P lo cap2))"
proof
  let ?c = "\<lambda>k. pearson_correlation src (target_vec h P (window_start_idx h P k)) P"
  let ?hi = "\<lambda>cap. if cap < vh_size h - P then cap else vh_size h - P"
  assume nn: "\<not> isnan (fst (find_best_lagged_correlation src h P lo cap1))"
  have len: "\<not> vh_size h < P + lo"
  proof
    assume "vh_size h < P + lo"
    then have "find_best_lagged_correlation src h P lo cap1 = (NaN, 0)"
      by (simp add: find_best_lagged_correlation_def)
    then show False using nn by simp
  qed
  have r: "find_best_lagged_correlation src h P lo cap = lag_search_from src h P lo (?hi cap)" for cap
    using len by (simp add: find_best_lagged_correlation_def)
  have sub: "{lo..?hi cap1} \<subseteq> {lo..?hi cap2}" using assms by auto
  note ch1 = lag_search_from_char [of lo "?hi cap1" src h P]
  note ch2 = lag_search_from_char [of lo "?hi cap2" src h P]
  have ex1: "\<exists>k \<in> {lo..?hi cap1}. \<not> isnan (?c k)"
  proof (rule ccontr)
    assume "\<not> ?thesis"
    then have "lag_search_from src h P lo (?hi cap1) = (NaN, 0)" using ch1 by blast
    then show False using nn unfolding r by simp
  qed
  then obtain b1 where b1: "first_largest ?c {lo..?hi cap1} b1"
    "lag_search_from src h P lo (?hi cap1) = (?c b1, end_minute_ms h P (window_start_idx h P b1))"
    using ch1 by blast
  have ex2: "\<exists>k \<in> {lo..?hi cap2}. \<not> isnan (?c k)" using ex1 sub by blast
  then obtain b2 where b2: "first_largest ?c {lo..?hi cap2} b2"
    "lag_search_from src h P lo (?hi cap2) = (?c b2, end_minute_ms h P (window_start_idx h P b2))"
    using ch2 by blast
  have in2: "b1 \<in> {lo..?hi cap2}" and n1: "\<not> isnan (?c b1)"
    using b1(1) sub unfolding first_largest_def by blast+
  have n2: "\<not> isnan (?c b2)" and "\<not> fabs (?c b2) < fabs (?c b1)"
    using b2(1) in2 n1 unfolding first_largest_def by blast+
  then have "fabs (?c b1) \<le> fabs (?c b2)"
    using n1 n2 by (simp add: double_le_iff)
  then show "\<not> isnan (fst (find_best_lagged_correlation src h P lo cap2)) \<and>
           fabs (fst (find_best_lagged_correlation src h P lo cap1)) \<le>
           fabs (fst (find_best_lagged_correlation src h P lo cap2))"
    using n2 unfolding r b1(2) b2(2) by simp
qed

theorem best_lag_monotone_witness:
  "\<not> isnan (fst (find_best_lagged_correlation [d_of_int 1, d_of_int 2]
       (record_minutes (minutes_from 1 [d_of_int 1, d_of_int 2, d_of_int 4, d_of_int 3])
          (vwap_history_init VWAP_HISTORY_SIZE_MINUTES)) 2 0 0)) \<and>
   \<not> isnan (fst (find_best_lagged_correlation [d_of_int 1, d_of_int 2]
       (record_minutes (minutes_from 1 [d_of_int 1, d_of_int 2, d_of_int 4, d_of_int 3])
          (vwap_history_init VWAP_HISTORY_SIZE_MINUTES)) 2 0 MAX_LAG_MINUTES)) \<and>
   fabs (fst (find_best_lagged_correlation [d_of_int 1, d_of_int 2]
       (record_minutes (minutes_from 1 [d_of_int 1, d_of_int 2, d_of_int 4, d_of_int 3])
          (vwap_history_init VWAP_HISTORY_SIZE_MINUTES)) 2 0 0)) \<le>
   fabs (fst (find_best_lagged_correlation [d_of_int 1, d_of_int 2]
       (record_minutes (minutes_from 1 [d_of_int 1, d_of_int 2, d_of_int 4, d_of_int 3])
          (vwap_history_init VWAP_HISTORY_SIZE_MINUTES)) 2 0 MAX_LAG_MINUTES))"
proof -
  define pts where "pts = minutes_from 1 [d_of_int 1, d_of_int 2, d_of_int 4, d_of_int 3]"
  define h where "h = record_minutes pts (vwap_history_init VWAP_HISTORY_SIZE_MINUTES)"
  define src where "src = [d_of_int 1, d_of_int 2]"
  have l4: "length pts = 4" by (simp add: pts_def minutes_from_def)
  have len: "int (length pts) \<le> VWAP_HISTORY_SIZE_MINUTES"
    unfolding l4 by (simp add: history_eval)
  have ok: "history_ok h" and en: "entries h = pts" and sz: "vh_size h = 4"
    using recorded_history [OF len] l4 by (simp_all add: h_def)
  have c0: "\<not> isnan (candidate_corr src h 2 0)"
    unfolding candidate_corr_def candidate_window_def en sz src_def pts_def
    by (simp add: minutes_from_def pearson_eval double_eval upt_rec)
  have "find_best_lagged_correlation src h 2 0 0 =
      (if isnan (candidate_corr src h 2 0) then (NaN, 0)
       else (candidate_corr src h 2 0, candidate_end h 2 0))"
    using ok sz by (intro find_best_one) simp_all
  then have n1: "\<not> isnan (fst (find_best_lagged_correlation src h 2 0 0))"
    using c0 by simp
  have "(0::int) \<le> MAX_LAG_MINUTES" by (simp add: MAX_LAG_MINUTES_def)
  from best_lag_monotone [OF this, of src h 2 0] n1
  show ?thesis unfolding src_def h_def pts_def by blast
qed

section \<open>NaN in a window\<close>

lemma pearson_step_keeps_nan: "nan_sums s \<Longrightarrow> nan_sums (pearson_step x y i s)"
  by (auto simp: nan_sums_def pearson_step_def isnan_iff)

lemma pearson_step_nan:
  "isnan (x ! i) \<or> isnan (y ! i) \<Longrightarrow> nan_sums (pearson_step x y i s)"
  by (auto simp: nan_sums_def pearson_step_def isnan_iff)

lemma pearson_fold_keeps_nan: "nan_sums s \<Longrightarrow> nan_sums (fold (pearson_step x y) ks s)"
  by (induction ks arbitrary: s) (simp_all add: pearson_step_keeps_nan)

lemma pearson_fold_nan:
  assumes "k \<in> set ks" "isnan (x ! k) \<or> isnan (y ! k)"
  shows "nan_sums (fold (pearson_step x y) ks s)"
  using assms(1)
proof (induction ks arbitrary: s)
  case Nil
  then show ?case by simp
next
  case (Cons a ks)
  show ?case
  proof (cases "a = k")
    case True
    then have "nan_sums (pearson_step x y a s)" using assms(2) by (simp add: pearson_step_nan)
    then show ?thesis by (simp add: pearson_fold_keeps_nan)
  next
    case False
    then have "k \<in> set ks" using Cons.prems by simp
    then show ?thesis using Cons.IH by simp
  qed
qed

lemma pearson_of_nan_sums: "nan_sums s \<Longrightarrow> pearson_of_sums n s = NaN"
  by (auto simp: nan_sums_def isnan_iff pearson_of_sums_def pearson_ratio_def
      pearson_denominator_def pearson_numerator_def variance_term_def)

lemma pearson_nan:
  assumes "k < nat n" "isnan (x ! k) \<or> isnan (y ! k)"
  shows "pearson_correlation x y n = NaN"
proof -
  have "k \<in> set [0..<nat n]" using assms(1) by simp
  from pearson_fold_nan [OF this assms(2)] show ?thesis
    unfolding pearson_correlation_def pearson_loop_def by (rule pearson_of_nan_sums)
qed

lemma lag_update_nan: "lag_update NaN end_ms st = st"
  by (simp add: lag_update_def)

lemma find_best_nan_source:
  assumes "k < nat P" "isnan (src ! k)"
  shows "find_best_lagged_correlation src h P lo cap = (NaN, 0)"
proof (cases "vh_size h < P + lo")
  case True
  then show ?thesis by (simp add: find_best_lagged_correlation_def)
next
  case False
  let ?hi = "if cap < vh_size h - P then cap else vh_size h - P"
  have r: "find_best_lagged_correlation src h P lo cap = lag_search_from src h P lo ?hi"
    using False by (simp add: find_best_lagged_correlation_def)
  have "\<forall>j \<in> {lo..?hi}. isnan (pearson_correlation src (target_vec h P (window_start_idx h P j)) P)"
    using pearson_nan [OF assms(1), of src] assms(2) by simp
  then show ?thesis
    unfolding r using lag_search_from_char [of lo ?hi src h P] by blast
qed

text \<open>
  C10. A NaN among the first \<open>n\<close> points of either vector makes the Pearson
  correlation NaN. In the lag search over a well-formed history, an offset whose
  source vector or candidate window holds a NaN VWAP has a NaN correlation and
  leaves the search state as it was. A symbol whose most recent
  \<open>MOVING_AVG_POINTS\<close> history points include a NaN gets no correlation row. And the
  VWAP worker appends the NaN of a window without volume to the history as it is.
\<close>

theorem nan_vwap_excluded:
  "(k < nat n \<and> (isnan (x ! k) \<or> isnan (y ! k)) \<longrightarrow> isnan (pearson_correlation x y n)) \<and>
   (history_ok h \<and> 0 \<le> offset \<and> offset \<le> vh_size h - P \<and> k < nat P \<and>
      (isnan (src ! k) \<or> isnan (vwap (candidate_window h P offset ! k))) \<longrightarrow>
      isnan (candidate_corr src h P offset) \<and> lag_step src h P offset st = st) \<and>
   (history_ok (vwap_hist (symbols ! i)) \<and>
      (\<exists>p \<in> set (drop (nat (vh_size (vwap_hist (symbols ! i)) - MOVING_AVG_POINTS))
                   (entries (vwap_hist (symbols ! i)))). isnan (vwap p)) \<longrightarrow>
      correlation_row_for symbols current_minute_ms i = None) \<and>
   (history_ok (vwap_hist sd) \<and> \<not> 0 < sum_volume (trade_window sd) \<longrightarrow>
      last (entries (vwap_hist (vwap_worker_symbol current_minute_ms sd))) =
        \<lparr>minute_ts_ms = current_minute_ms, vwap = NaN\<rparr>)"
proof (intro conjI impI)
  assume "k < nat n \<and> (isnan (x ! k) \<or> isnan (y ! k))"
  then show "isnan (pearson_correlation x y n)" using pearson_nan [of k n x y] by simp
next
  assume a: "history_ok h \<and> 0 \<le> offset \<and> offset \<le> vh_size h - P \<and> k < nat P \<and>
      (isnan (src ! k) \<or> isnan (vwap (candidate_window h P offset ! k)))"
  then have ok: "history_ok h" and o: "0 \<le> offset" "offset \<le> vh_size h - P" and k: "k < nat P"
    by simp_all
  have d: "0 \<le> vh_size h - P - offset" using o by linarith
  have "map vwap (candidate_window h P offset) ! k = vwap (candidate_window h P offset ! k)"
    using candidate_window_nth(2) [OF d o(1) k] k by simp
  then have "isnan (src ! k) \<or> isnan (map vwap (candidate_window h P offset) ! k)"
    using a by simp
  from pearson_nan [OF k this]
  have c: "candidate_corr src h P offset = NaN" by (simp add: candidate_corr_def)
  then show "isnan (candidate_corr src h P offset)" by simp
  have P: "1 \<le> P" using k by linarith
  show "lag_step src h P offset st = st"
    unfolding lag_step_entries [OF ok P o] c by (rule lag_update_nan)
next
  let ?h = "vwap_hist (symbols ! i)"
  assume a: "history_ok ?h \<and>
      (\<exists>p \<in> set (drop (nat (vh_size ?h - MOVING_AVG_POINTS)) (entries ?h)). isnan (vwap p))"
  then have ok: "history_ok ?h" by simp
  show "correlation_row_for symbols current_minute_ms i = None"
  proof (cases "vh_size ?h < MOVING_AVG_POINTS")
    case True
    then show ?thesis by (simp add: correlation_row_for_def vwap_history_get_recent_def)
  next
    case False
    let ?pts = "drop (nat (vh_size ?h - MOVING_AVG_POINTS)) (entries ?h)"
    have g: "vwap_history_get_recent ?h MOVING_AVG_POINTS = Some ?pts"
      using False by (intro vwap_history_get_recent_entries [OF ok]) (simp_all add: MOVING_AVG_POINTS_def)
    have l: "length ?pts = nat MOVING_AVG_POINTS"
      using False history_okD(5) [OF ok] by (simp add: MOVING_AVG_POINTS_def)
    from a obtain k where k: "k < length ?pts" "isnan (vwap (?pts ! k))"
      by (metis in_set_conv_nth)
    have kP: "k < nat MOVING_AVG_POINTS" using k(1) l by simp
    have nk: "isnan (map vwap ?pts ! k)" using k by simp
    have "\<not> found_any (best_target symbols (map vwap ?pts) i)"
    proof (rule best_target_none)
      fix j
      show "isnan (fst (find_best_lagged_correlation (map vwap ?pts) (vwap_hist (symbols ! j))
                  MOVING_AVG_POINTS (if i = j then MOVING_AVG_POINTS else 0) MAX_LAG_MINUTES))"
        unfolding find_best_nan_source [OF kP nk] by simp
    qed
    then show ?thesis by (simp add: correlation_row_for_def g row_of_def)
  qed
next
  assume a: "history_ok (vwap_hist sd) \<and> \<not> 0 < sum_volume (trade_window sd)"
  then have ok: "history_ok (vwap_hist sd)" and v: "\<not> 0 < sum_volume (trade_window sd)"
    by simp_all
  have s: "sliding_window_snapshot_vwap (trade_window sd) = NaN"
    using v by (simp add: sliding_window_snapshot_vwap_def)
  show "last (entries (vwap_hist (vwap_worker_symbol current_minute_ms sd))) =
        \<lparr>minute_ts_ms = current_minute_ms, vwap = NaN\<rparr>"
    using vwap_history_append_ok(2) [OF ok, of current_minute_ms NaN]
    by (simp add: vwap_worker_symbol_def s)
qed

theorem nan_vwap_excluded_witness:
  "isnan (pearson_correlation [d_of_int 1, NaN] [d_of_int 1, d_of_int 2] 2) \<and>
   correlation_row_for
     (symbols_after
        (minutes_from 1 [d_of_int 1, d_of_int 2, d_of_int 3, NaN, d_of_int 5, d_of_int 6,
                         d_of_int 7, d_of_int 8] # replicate 7 []))
     (8 * MS_PER_MINUTE) 0 = None \<and>
   last (entries (vwap_hist (vwap_worker_symbol MS_PER_MINUTE (symbol_init ''BTC-USDT'')))) =
     \<lparr>minute_ts_ms = MS_PER_MINUTE, vwap = NaN\<rparr>"
proof -
  define pts where "pts = minutes_from 1 [d_of_int 1, d_of_int 2, d_of_int 3, NaN, d_of_int 5,
                         d_of_int 6, d_of_int 7, d_of_int 8]"
  define S where "S = symbols_after (pts # replicate 7 [])"
  define h where "h = record_minutes pts (vwap_history_init VWAP_HISTORY_SIZE_MINUTES)"
  define sd where "sd = symbol_init ''BTC-USDT''"
  have n: "length (pts # replicate 7 []) = NUM_SYMBOLS" by (simp add: NUM_SYMBOLS_def)
  have z: "0 < NUM_SYMBOLS" by (simp add: NUM_SYMBOLS_def)
  have h0: "vwap_hist (S ! 0) = h"
    using symbols_after_hist [OF n z] by (simp add: S_def h_def)
  have l8: "length pts = 8" by (simp add: pts_def minutes_from_def)
  have len: "int (length pts) \<le> VWAP_HISTORY_SIZE_MINUTES"
    unfolding l8 by (simp add: history_eval)
  have ok: "history_ok h" and en: "entries h = pts" and sz: "vh_size h = 8"
    using recorded_history [OF len] l8 by (simp_all add: h_def)
  have "isnan (vwap (pts ! 3))" "pts ! 3 \<in> set pts"
    using l8 by (simp_all add: pts_def minutes_from_def upt_rec)
  then have ex: "\<exists>p \<in> set (drop (nat (vh_size (vwap_hist (S ! 0)) - MOVING_AVG_POINTS))
                   (entries (vwap_hist (S ! 0)))). isnan (vwap p)"
    unfolding h0 en sz by (auto simp: MOVING_AVG_POINTS_def)
  have ok0: "history_ok (vwap_hist (S ! 0))" unfolding h0 by (rule ok)
  have oks: "history_ok (vwap_hist sd)"
    unfolding sd_def symbol_init_def using vwap_history_init_ok(1) [of VWAP_HISTORY_SIZE_MINUTES]
    by (simp add: history_eval)
  have v: "\<not> 0 < sum_volume (trade_window sd)"
    by (simp add: sd_def symbol_init_def sliding_window_init_def double_eval)
  have k: "(1::nat) < nat 2" "isnan ([d_of_int 1, NaN] ! 1)" by simp_all
  from nan_vwap_excluded [where k = 1 and n = 2 and x = "[d_of_int 1, NaN]"
      and y = "[d_of_int 1, d_of_int 2]" and symbols = S and i = 0 and sd = sd
      and current_minute_ms = c, THEN conjunct1] k
  have w1: "isnan (pearson_correlation [d_of_int 1, NaN] [d_of_int 1, d_of_int 2] 2)" for c
    by blast
  from nan_vwap_excluded [where symbols = S and i = 0 and current_minute_ms = "8 * MS_PER_MINUTE",
      THEN conjunct2, THEN conjunct2, THEN conjunct1] ok0 ex
  have w2: "correlation_row_for S (8 * MS_PER_MINUTE) 0 = None" by blast
  from nan_vwap_excluded [where sd = sd and current_minute_ms = MS_PER_MINUTE,
      THEN conjunct2, THEN conjunct2, THEN conjunct2] oks v
  have w3: "last (entries (vwap_hist (vwap_worker_symbol MS_PER_MINUTE sd))) =
     \<lparr>minute_ts_ms = MS_PER_MINUTE, vwap = NaN\<rparr>" by blast
  show ?thesis using w1 w2 w3 unfolding S_def pts_def sd_def by blast
qed

section \<open>Doubles: rounding to the nearest\<close>

lemma nbits_range: "2 ^ n \<le> k \<Longrightarrow> k < 2 ^ Suc n \<Longrightarrow> nbits k = int n + 1"
proof (induction n arbitrary: k)
  case 0
  then have "k = 1" by simp
  then show ?case by (simp add: nbits.simps)
next
  case (Suc n)
  have pos: "\<not> k \<le> 0"
  proof
    assume "k \<le> 0"
    moreover have "(0::int) < 2 ^ Suc n" by simp
    ultimately show False using Suc.prems(1) by linarith
  qed
  have "2 ^ n \<le> k div 2" using Suc.prems(1) by simp
  moreover have "k div 2 < 2 ^ Suc n" using Suc.prems(2) by simp
  ultimately have "nbits (k div 2) = int n + 1" by (rule Suc.IH)
  then show ?case using pos by (subst nbits.simps) simp
qed

lemma isqrt_spec:
  "0 \<le> n \<Longrightarrow> 0 \<le> isqrt n \<and> isqrt n * isqrt n \<le> n \<and> n < (isqrt n + 1) * (isqrt n + 1)"
proof (induction n rule: isqrt.induct)
  case (1 n)
  show ?case
  proof (cases "n < 2")
    case True
    then have i: "isqrt n = n" by (subst isqrt.simps) simp
    from True have "n = 0 \<or> n = 1" using "1.prems" by linarith
    then show ?thesis unfolding i by auto
  next
    case False
    define r where "r = isqrt (n div 4)"
    have "0 \<le> n div 4" using "1.prems" by simp
    from "1.IH" [OF False this]
    have r0: "0 \<le> r" and lo: "r * r \<le> n div 4" and hi: "n div 4 < (r + 1) * (r + 1)"
      by (simp_all add: r_def)
    have e: "isqrt n = isqrt_step n (2 * r)"
      using False by (subst isqrt.simps) (simp add: r_def)
    have l4: "(2 * r) * (2 * r) \<le> n"
    proof -
      have "4 * (r * r) \<le> 4 * (n div 4)" using lo by simp
      also have "\<dots> \<le> n" by simp
      finally show ?thesis by simp
    qed
    have h4: "n < (2 * r + 2) * (2 * r + 2)"
    proof -
      have "n div 4 + 1 \<le> (r + 1) * (r + 1)" using hi by simp
      then have "4 * (n div 4) + 4 \<le> 4 * ((r + 1) * (r + 1))" by simp
      moreover have "n < 4 * (n div 4) + 4"
      proof -
        have "n mod 4 < 4" by simp
        moreover have "n = 4 * (n div 4) + n mod 4" by simp
        ultimately show ?thesis by linarith
      qed
      moreover have "4 * ((r + 1) * (r + 1)) = (2 * r + 2) * (2 * r + 2)"
        by (simp add: algebra_simps)
      ultimately show ?thesis by linarith
    qed
    show ?thesis
    proof (cases "(2 * r + 1) * (2 * r + 1) \<le> n")
      case True
      then have i: "isqrt n = 2 * r + 1" by (simp add: e isqrt_step_def)
      have q: "(2 * r + 1 + 1) * (2 * r + 1 + 1) = (2 * r + 2) * (2 * r + 2)"
        by (simp add: algebra_simps)
      show ?thesis
        unfolding i
      proof (intro conjI)
        show "0 \<le> 2 * r + 1" using r0 by linarith
        show "(2 * r + 1) * (2 * r + 1) \<le> n" by (rule True)
        show "n < (2 * r + 1 + 1) * (2 * r + 1 + 1)" unfolding q by (rule h4)
      qed
    next
      case False
      then have i: "isqrt n = 2 * r" by (simp add: e isqrt_step_def)
      show ?thesis
        unfolding i
      proof (intro conjI)
        show "0 \<le> 2 * r" using r0 by linarith
        show "2 * r * (2 * r) \<le> n" by (rule l4)
        show "n < (2 * r + 1) * (2 * r + 1)" using False by linarith
      qed
    qed
  qed
qed

lemma round_pick_nearest:
  fixes M a H :: int
  assumes H: "0 < H"
    and lo: "(2 * M - 1) * H < a \<or> ((2 * M - 1) * H = a \<and> sticky)"
    and hi: "a < (2 * M + 1) * H"
  shows "(if H < a mod (2 * H) \<or> (a mod (2 * H) = H \<and> (sticky \<or> odd (a div (2 * H))))
          then a div (2 * H) + 1 else a div (2 * H)) = M"
proof (cases "2 * H * M \<le> a")
  case True
  define d where "d = a - 2 * H * M"
  have u: "(2 * M + 1) * H = 2 * H * M + H" by (simp add: algebra_simps)
  have d: "0 \<le> d" "d < H" using True hi unfolding u d_def by linarith+
  have a: "a = 2 * H * M + d" by (simp add: d_def)
  have "d < 2 * H" using d H by linarith
  then have q: "a div (2 * H) = M" and r: "a mod (2 * H) = d"
    using a d(1) by (auto intro: int_div_pos_eq int_mod_pos_eq)
  show ?thesis unfolding q r using d by simp
next
  case False
  define d where "d = a - 2 * H * (M - 1)"
  have l: "(2 * M - 1) * H = 2 * H * (M - 1) + H" by (simp add: algebra_simps)
  have m: "2 * H * M = 2 * H * (M - 1) + 2 * H" by (simp add: algebra_simps)
  have d: "H \<le> d" "d < 2 * H" using False lo unfolding l m d_def by linarith+
  have a: "a = 2 * H * (M - 1) + d" by (simp add: d_def)
  have "0 \<le> d" using d H by linarith
  then have q: "a div (2 * H) = M - 1" and r: "a mod (2 * H) = d"
    using a d(2) by (auto intro: int_div_pos_eq int_mod_pos_eq)
  have "H < d \<or> (d = H \<and> sticky)"
  proof (cases "H < d")
    case True
    then show ?thesis by simp
  next
    case dh: False
    then have "d = H" using d by linarith
    then have "(2 * M - 1) * H = a" unfolding l a by simp
    then show ?thesis using lo \<open>d = H\<close> by auto
  qed
  then show ?thesis unfolding q r by auto
qed

lemma round_dy_nearest:
  fixes M a e :: int and sh :: nat
  assumes M: "2 ^ 52 \<le> M" "M < 2 ^ 53"
    and sh: "1 \<le> sh"
    and a: "2 ^ (52 + sh) \<le> a" "a < 2 ^ (53 + sh)"
    and e: "- 1074 \<le> e + int sh" "e + int sh \<le> 971"
    and lo: "(2 * M - 1) * 2 ^ (sh - 1) < a \<or> ((2 * M - 1) * 2 ^ (sh - 1) = a \<and> sticky)"
    and hi: "a < (2 * M + 1) * 2 ^ (sh - 1)"
  shows "round_dy sticky a e = Fin M (e + int sh)"
proof -
  have pos: "0 < a"
  proof -
    have "(0::int) < 2 ^ (52 + sh)" by simp
    then show ?thesis using a(1) by linarith
  qed
  have "a < 2 ^ Suc (52 + sh)" using a(2) by (simp add: add.commute)
  with a(1) have nb: "nbits a = int (52 + sh) + 1" by (rule nbits_range)
  have ab: "abs a = a" "sgn a = 1" "a \<noteq> 0" using pos by simp_all
  have mx: "max (e + nbits (abs a) - 53) (- 1074) = e + int sh"
    unfolding ab nb using e(1) by simp
  have sp: "(2::int) ^ sh = 2 * 2 ^ (sh - 1)"
    using sh by (metis One_nat_def Suc_pred less_eq_Suc_le power_Suc)
  have H: "(0::int) < 2 ^ (sh - 1)" by simp
  note p = round_pick_nearest [OF H lo hi]
  have "round_dy sticky a e = round_at sticky a e (e + int sh)"
    unfolding round_dy_def mx using ab(3) by simp
  also have "\<dots> = round_shift sticky 1 a sh (e + int sh)"
    unfolding round_at_def ab using sh by simp
  also have "\<dots> = round_carry 1 M (e + int sh)"
    unfolding round_shift_def round_pick_def sp p ..
  also have "\<dots> = Fin M (e + int sh)"
    unfolding round_carry_def pack_def using M e(2) by simp
  finally show ?thesis .
qed

lemma round_dy_near:
  fixes a e :: int and sh :: nat
  assumes a: "2 ^ (52 + sh) \<le> a" "a < 2 ^ (53 + sh)"
    and sh: "1 \<le> sh"
    and e: "- 1074 \<le> e + int sh" "e + int sh \<le> 971"
    and nc: "e + int sh < 971 \<or> a < 2 ^ (53 + sh) - 2 ^ (sh - 1)"
  shows "\<exists>q t. round_dy False a e = Fin q (e + int t) \<and> 2 ^ 52 \<le> q \<and> q < 2 ^ 53 \<and>
               (t = sh \<or> t = Suc sh) \<and> abs (q * 2 ^ t - a) \<le> 2 ^ (sh - 1)"
proof -
  define H :: int where "H = 2 ^ (sh - 1)"
  define q where "q = a div (2 * H)"
  define r where "r = a mod (2 * H)"
  define q' where "q' = (if H < r \<or> (r = H \<and> (False \<or> odd q)) then q + 1 else q)"
  have H: "0 < H" by (simp add: H_def)
  have sp: "(2::int) ^ sh = 2 * H"
    unfolding H_def using sh by (metis One_nat_def Suc_pred less_eq_Suc_le power_Suc)
  have pos: "0 < a"
  proof -
    have "(0::int) < 2 ^ (52 + sh)" by simp
    then show ?thesis using a(1) by linarith
  qed
  have "a < 2 ^ Suc (52 + sh)" using a(2) by (simp add: add.commute)
  with a(1) have nb: "nbits a = int (52 + sh) + 1" by (rule nbits_range)
  have ab: "abs a = a" "sgn a = 1" "a \<noteq> 0" using pos by simp_all
  have mx: "max (e + nbits (abs a) - 53) (- 1074) = e + int sh"
    unfolding ab nb using e(1) by simp
  have "round_dy False a e = round_at False a e (e + int sh)"
    unfolding round_dy_def mx using ab(3) by simp
  also have "\<dots> = round_shift False 1 a sh (e + int sh)"
    unfolding round_at_def ab using sh by simp
  also have "\<dots> = round_carry 1 q' (e + int sh)"
    unfolding round_shift_def round_pick_def sp q'_def q_def r_def H_def [symmetric] ..
  finally have rd: "round_dy False a e = round_carry 1 q' (e + int sh)" .
  have dm: "a = 2 * H * q + r" unfolding q_def r_def by simp
  have r: "0 \<le> r" "r < 2 * H" using H unfolding r_def by simp_all
  have a1: "2 * H * 2 ^ 52 \<le> a" using a(1) unfolding sp [symmetric] by (simp add: power_add)
  have a2: "a < 2 * H * 2 ^ 53" using a(2) unfolding sp [symmetric] by (simp add: power_add)
  define X where "X = H * q"
  define C where "C = H * 2 ^ 52"
  have dmX: "a = 2 * X + r" unfolding X_def using dm by simp
  have a1C: "2 * C \<le> a" using a1 by (simp add: C_def)
  have a2C: "a < 4 * C" using a2 by (simp add: C_def)
  have ql: "2 ^ 52 \<le> q"
  proof (rule ccontr)
    assume "\<not> 2 ^ 52 \<le> q"
    then have "q + 1 \<le> 2 ^ 52" by simp
    then have "H * (q + 1) \<le> H * 2 ^ 52" using H by (intro mult_left_mono) simp_all
    moreover have "H * (q + 1) = X + H" by (simp add: X_def algebra_simps)
    ultimately have "X + H \<le> C" by (simp add: C_def)
    then show False using a1C dmX r by linarith
  qed
  have qu: "q < 2 ^ 53"
  proof (rule ccontr)
    assume "\<not> q < 2 ^ 53"
    then have "2 ^ 53 \<le> q" by simp
    then have "H * 2 ^ 53 \<le> H * q" using H by (intro mult_left_mono) simp_all
    moreover have "H * 2 ^ 53 = 2 * C" by (simp add: C_def)
    ultimately have "2 * C \<le> X" by (simp add: X_def)
    then show False using a2C dmX r by linarith
  qed
  have q'c: "q' = q \<and> r \<le> H \<or> q' = q + 1 \<and> H \<le> r"
    unfolding q'_def by auto
  define Y where "Y = q' * (2 * H) - a"
  have "q * (2 * H) - a = - r" "(q + 1) * (2 * H) - a = 2 * H - r"
    using dm by (simp_all add: algebra_simps)
  then have "Y = - r \<and> r \<le> H \<or> Y = 2 * H - r \<and> H \<le> r"
    using q'c unfolding Y_def by metis
  then have "abs Y \<le> H" using r by linarith
  then have near: "abs (q' * (2 * H) - a) \<le> H" by (simp only: Y_def)
  have q'b: "2 ^ 52 \<le> q'" "q' \<le> 2 ^ 53"
  proof -
    show "2 ^ 52 \<le> q'" using q'c ql by linarith
    show "q' \<le> 2 ^ 53" using q'c qu by linarith
  qed
  show ?thesis
  proof (cases "q' = 2 ^ 53")
    case True
    have e1: "e + int sh + 1 = e + int (Suc sh)" by simp
    have e2: "e + int sh < 971"
    proof (rule ccontr)
      assume "\<not> e + int sh < 971"
      then have s: "a < 2 ^ (53 + sh) - 2 ^ (sh - 1)" using nc by blast
      have "(2::int) ^ (53 + sh) = 4 * C" by (simp add: power_add sp C_def)
      then have lt: "a < 4 * C - H" using s unfolding H_def by simp
      have "q' \<noteq> q" using True qu by simp
      then have "q = 2 ^ 53 - 1" "H \<le> r" using q'c True by auto
      then have "X = 2 * C - H" by (simp add: X_def C_def algebra_simps)
      then show False using lt dmX \<open>H \<le> r\<close> by linarith
    qed
    have "round_carry 1 q' (e + int sh) = Fin (2 ^ 52) (e + int sh + 1)"
      unfolding round_carry_def pack_def using True e2 by simp
    then have c: "round_dy False a e = Fin (2 ^ 52) (e + int (Suc sh))"
      unfolding rd e1 .
    have "(2::int) ^ 52 * 2 ^ Suc sh = q' * (2 * H)"
      unfolding True sp [symmetric] by simp
    then have n: "abs (2 ^ 52 * 2 ^ Suc sh - a) \<le> 2 ^ (sh - 1)"
      using near unfolding H_def by (simp only:)
    have b: "(2::int) ^ 52 \<le> 2 ^ 52" "(2::int) ^ 52 < 2 ^ 53" by simp_all
    show ?thesis
      using c b n by (intro exI [of _ "2 ^ 52"] exI [of _ "Suc sh"] conjI) (simp_all only: simp_thms)
  next
    case False
    then have u: "q' < 2 ^ 53" using q'b by linarith
    have "round_carry 1 q' (e + int sh) = Fin q' (e + int sh)"
      unfolding round_carry_def pack_def using False e(2) q'b(1) by simp
    then have c: "round_dy False a e = Fin q' (e + int sh)" unfolding rd .
    have n: "abs (q' * 2 ^ sh - a) \<le> 2 ^ (sh - 1)"
      using near unfolding sp H_def by (simp only:)
    show ?thesis
      using c q'b(1) u n by (intro exI [of _ q'] exI [of _ sh] conjI) (simp_all only: simp_thms)
  qed
qed

lemma odd_square_not_4: "4 * x - 4 * M + 1 \<noteq> 4 * (Q::int)"
  by presburger

lemma isqrt_near_square:
  fixes M Q P :: int
  assumes M: "0 < M" and P: "0 < P" and Q: "M * M - M < Q" "Q \<le> M * M + M"
  shows "((2 * M - 1) * P < isqrt (4 * Q * (P * P)) \<or>
          ((2 * M - 1) * P = isqrt (4 * Q * (P * P)) \<and>
           isqrt (4 * Q * (P * P)) * isqrt (4 * Q * (P * P)) \<noteq> 4 * Q * (P * P))) \<and>
         isqrt (4 * Q * (P * P)) < (2 * M + 1) * P"
proof -
  define K where "K = P * P"
  define N where "N = 4 * Q * K"
  define s where "s = isqrt N"
  have K: "0 < K" using P by (simp add: K_def)
  have "0 \<le> M * M - M"
  proof -
    have "M * 1 \<le> M * M" using M by (intro mult_left_mono) simp_all
    then show ?thesis by simp
  qed
  then have Q0: "0 < Q" using Q(1) by linarith
  have N0: "0 \<le> N" using Q0 K by (simp add: N_def)
  from isqrt_spec [OF N0]
  have s0: "0 \<le> s" and sl: "s * s \<le> N" and su: "N < (s + 1) * (s + 1)"
    by (simp_all add: s_def)
  have up: "((2 * M + 1) * P) * ((2 * M + 1) * P) = (4 * (M * M) + 4 * M + 1) * K"
    by (simp add: K_def algebra_simps)
  have dn: "((2 * M - 1) * P) * ((2 * M - 1) * P) = (4 * (M * M) - 4 * M + 1) * K"
    by (simp add: K_def algebra_simps)
  have hi: "s < (2 * M + 1) * P"
  proof (rule ccontr)
    assume "\<not> s < (2 * M + 1) * P"
    then have le: "(2 * M + 1) * P \<le> s" by simp
    have "0 \<le> (2 * M + 1) * P" using M P by simp
    then have "((2 * M + 1) * P) * ((2 * M + 1) * P) \<le> s * s"
      using le by (intro mult_mono) simp_all
    then have "(4 * (M * M) + 4 * M + 1) * K \<le> N" using sl unfolding up by linarith
    moreover have "N \<le> (4 * (M * M) + 4 * M) * K"
    proof -
      have "4 * Q \<le> 4 * (M * M) + 4 * M" using Q(2) by simp
      then show ?thesis unfolding N_def using K by (intro mult_right_mono) simp_all
    qed
    moreover have "(4 * (M * M) + 4 * M) * K < (4 * (M * M) + 4 * M + 1) * K"
      using K by (intro mult_strict_right_mono) simp_all
    ultimately show False by linarith
  qed
  have lo: "(2 * M - 1) * P \<le> s"
  proof (rule ccontr)
    assume "\<not> (2 * M - 1) * P \<le> s"
    then have le: "s + 1 \<le> (2 * M - 1) * P" by simp
    have "0 \<le> s + 1" using s0 by simp
    then have "(s + 1) * (s + 1) \<le> ((2 * M - 1) * P) * ((2 * M - 1) * P)"
      using le by (intro mult_mono) simp_all
    then have "N < (4 * (M * M) - 4 * M + 1) * K" using su unfolding dn by linarith
    moreover have "(4 * (M * M) - 4 * M + 1) * K \<le> N"
    proof -
      have "4 * (M * M) - 4 * M + 1 \<le> 4 * Q" using Q(1) by simp
      then show ?thesis unfolding N_def using K by (intro mult_right_mono) simp_all
    qed
    ultimately show False by linarith
  qed
  have ne: "s * s \<noteq> N" if "(2 * M - 1) * P = s"
  proof
    assume ss: "s * s = N"
    have "((2 * M - 1) * P) * ((2 * M - 1) * P) = N" unfolding that by (rule ss)
    then have eq: "(4 * (M * M) - 4 * M + 1) * K = (4 * Q) * K" unfolding dn N_def .
    have "K \<noteq> 0" using K by simp
    from mult_right_cancel [OF this] eq have "4 * (M * M) - 4 * M + 1 = 4 * Q" by blast
    then show False using odd_square_not_4 by blast
  qed
  show ?thesis
    using lo hi ne unfolding s_def N_def K_def by fastforce
qed

lemma sqrt_root_near:
  fixes M Q ex :: int and u :: nat
  assumes M: "2 ^ 52 \<le> M" "M < 2 ^ 53"
    and u: "1 \<le> u"
    and Q: "M * M - M < Q" "Q \<le> M * M + M"
    and Qb: "2 ^ 104 \<le> Q"
    and e: "- 1074 \<le> ex + int u" "ex + int u \<le> 971"
  shows "sqrt_root (4 * Q * (2 ^ (u - 1) * 2 ^ (u - 1)))
           (isqrt (4 * Q * (2 ^ (u - 1) * 2 ^ (u - 1)))) ex = Fin M (ex + int u)"
proof -
  define P :: int where "P = 2 ^ (u - 1)"
  define K where "K = P * P"
  define N where "N = 4 * Q * K"
  define s where "s = isqrt N"
  define B :: int where "B = 2 ^ 53 * P"
  have P: "0 < P" by (simp add: P_def)
  have K: "0 < K" using P by (simp add: K_def)
  have M0: "0 < M" using M(1) by simp
  have up: "(2::int) ^ u = 2 * P"
    unfolding P_def using u by (metis One_nat_def Suc_pred less_eq_Suc_le power_Suc)
  have p52: "(2::int) ^ (52 + u) = B" unfolding B_def by (simp add: power_add up)
  have p53: "(2::int) ^ (53 + u) = 2 * B" unfolding B_def by (simp add: power_add up)
  have Q0: "0 \<le> Q" using Qb by simp
  have N0: "0 \<le> N" using Q0 K by (simp add: N_def)
  from isqrt_spec [OF N0]
  have s0: "0 \<le> s" and sl: "s * s \<le> N" and su: "N < (s + 1) * (s + 1)"
    by (simp_all add: s_def)
  from isqrt_near_square [OF M0 P Q]
  have lo: "(2 * M - 1) * P < s \<or> ((2 * M - 1) * P = s \<and> s * s \<noteq> N)"
    and hi: "s < (2 * M + 1) * P"
    unfolding s_def N_def K_def by blast+
  have BB: "B * B = 2 ^ 106 * K" by (simp add: B_def K_def algebra_simps)
  have lb: "B \<le> s"
  proof (rule ccontr)
    assume "\<not> B \<le> s"
    then have le: "s + 1 \<le> B" by simp
    have "0 \<le> s + 1" using s0 by simp
    then have "(s + 1) * (s + 1) \<le> B * B" using le by (intro mult_mono) simp_all
    then have "N < 2 ^ 106 * K" using su unfolding BB by linarith
    moreover have "2 ^ 106 * K \<le> N"
    proof -
      have "2 ^ 106 \<le> 4 * Q" using Qb by simp
      then show ?thesis unfolding N_def using K by (intro mult_right_mono) simp_all
    qed
    ultimately show False by linarith
  qed
  have ub: "s < 2 * B"
  proof -
    have "2 * M + 1 \<le> 2 ^ 54" using M(2) by simp
    then have "(2 * M + 1) * P \<le> 2 ^ 54 * P" using P by (intro mult_right_mono) simp_all
    also have "\<dots> = 2 * B" by (simp add: B_def)
    finally show ?thesis using hi by linarith
  qed
  have lb': "2 ^ (52 + u) \<le> s" unfolding p52 by (rule lb)
  have ub': "s < 2 ^ (53 + u)" unfolding p53 by (rule ub)
  note lo' = lo [unfolded P_def] and hi' = hi [unfolded P_def]
  have "round_dy (s * s \<noteq> N) s ex = Fin M (ex + int u)"
    by (rule round_dy_nearest [OF M u lb' ub' e lo' hi'])
  then show ?thesis
    unfolding sqrt_root_def s_def N_def K_def P_def .
qed

lemma square_bounds:
  fixes M :: int
  assumes "2 ^ 52 \<le> M" "M < 2 ^ 53"
  shows "2 ^ 104 \<le> M * M" "M * M < 2 ^ 106"
proof -
  have "(2 ^ 52) * (2 ^ 52) \<le> M * M" using assms(1) by (intro mult_mono) simp_all
  then show "2 ^ 104 \<le> M * M" by simp
  have "M * M \<le> (2 ^ 53 - 1) * (2 ^ 53 - 1)" using assms by (intro mult_mono) simp_all
  then show "M * M < 2 ^ 106" by simp
qed

lemma dsqrt_near_square:
  fixes M q e :: int and t :: nat
  assumes M: "2 ^ 52 \<le> M" "M < 2 ^ 53"
    and q: "2 ^ 52 \<le> q" "q < 2 ^ 53"
    and t: "t = 52 \<or> t = 53 \<or> t = 54"
    and Q: "M * M - M < q * 2 ^ t" "q * 2 ^ t \<le> M * M + M"
    and e: "- 1074 \<le> e" "e \<le> 971"
  shows "dsqrt (Fin q (e + e + int t)) = Fin M e"
proof -
  have "q < 2 ^ Suc 52" using q(2) by simp
  with q(1) have nb: "nbits q = 53" using nbits_range [of 52 q] by simp
  have q0: "\<not> q < 0" "q \<noteq> 0" using q(1) by simp_all
  have d: "dsqrt (Fin q E) = sqrt_fin q E 57" for E
    using q0 by (simp add: nb)
  have Qb: "2 ^ 104 \<le> q * 2 ^ t"
  proof -
    have "(2::int) ^ 52 \<le> 2 ^ t" using t by (intro power_increasing) auto
    then have "(2 ^ 52) * (2 ^ 52) \<le> q * 2 ^ t" using q(1) by (intro mult_mono) simp_all
    then show ?thesis by simp
  qed
  from t consider "t = 52" | "t = 53" | "t = 54" by blast
  then show ?thesis
  proof cases
    case 1
    have ev: "\<not> even (e + e + 52 - 57)" by presburger
    have ex: "(e + e + 52 - 58) div 2 = e - 3" by presburger
    have N: "q * 2 ^ nat 58 = 4 * (q * 2 ^ 52) * (2 ^ (3 - 1) * 2 ^ (3 - 1))" by simp
    have "sqrt_fin q (e + e + 52) 57 = sqrt_root (q * 2 ^ nat 58) (isqrt (q * 2 ^ nat 58)) (e - 3)"
      unfolding sqrt_fin_def sqrt_scaled_def using ev ex by simp
    also have "\<dots> = Fin M (e - 3 + int 3)"
      unfolding N using M Q Qb e unfolding 1 by (intro sqrt_root_near) simp_all
    finally show ?thesis unfolding 1 d by simp
  next
    case 2
    have ev: "even (e + e + 53 - 57)" by presburger
    have ex: "(e + e + 53 - 57) div 2 = e - 2" by presburger
    have N: "q * 2 ^ nat 57 = 4 * (q * 2 ^ 53) * (2 ^ (2 - 1) * 2 ^ (2 - 1))" by simp
    have "sqrt_fin q (e + e + 53) 57 = sqrt_root (q * 2 ^ nat 57) (isqrt (q * 2 ^ nat 57)) (e - 2)"
      unfolding sqrt_fin_def sqrt_scaled_def using ev ex by simp
    also have "\<dots> = Fin M (e - 2 + int 2)"
      unfolding N using M Q Qb e unfolding 2 by (intro sqrt_root_near) simp_all
    finally show ?thesis unfolding 2 d by simp
  next
    case 3
    have ev: "\<not> even (e + e + 54 - 57)" by presburger
    have ex: "(e + e + 54 - 58) div 2 = e - 2" by presburger
    have N: "q * 2 ^ nat 58 = 4 * (q * 2 ^ 54) * (2 ^ (2 - 1) * 2 ^ (2 - 1))" by simp
    have "sqrt_fin q (e + e + 54) 57 = sqrt_root (q * 2 ^ nat 58) (isqrt (q * 2 ^ nat 58)) (e - 2)"
      unfolding sqrt_fin_def sqrt_scaled_def using ev ex by simp
    also have "\<dots> = Fin M (e - 2 + int 2)"
      unfolding N using M Q Qb e unfolding 3 by (intro sqrt_root_near) simp_all
    finally show ?thesis unfolding 3 d by simp
  qed
qed

text \<open>
  The root of the square of a normal double, when the square neither overflows nor
  leaves the normal range, is the absolute value of the double.
\<close>

lemma dsqrt_square:
  assumes m: "2 ^ 52 \<le> abs m" "abs m < 2 ^ 53" and e: "- 563 \<le> e" "e \<le> 459"
  shows "dsqrt (Fin m e * Fin m e) = Fin (abs m) e"
proof -
  define M where "M = abs m"
  define A where "A = M * M"
  have M: "2 ^ 52 \<le> M" "M < 2 ^ 53" using m by (simp_all add: M_def)
  have mm: "m * m = A" by (simp add: A_def M_def)
  have prod: "Fin m e * Fin m e = round_dy False A (e + e)"
    by (simp add: times_double_def mm)
  note sb = square_bounds [OF M, folded A_def]
  have "\<exists>q t. round_dy False A (e + e) = Fin q (e + e + int t) \<and> 2 ^ 52 \<le> q \<and> q < 2 ^ 53 \<and>
          (t = 52 \<or> t = 53 \<or> t = 54) \<and> A - M < q * 2 ^ t \<and> q * 2 ^ t \<le> A + M"
  proof (cases "A < 2 ^ 105")
    case True
    have a: "2 ^ (52 + 52) \<le> A" "A < 2 ^ (53 + 52)" using sb(1) True by simp_all
    have ee: "- 1074 \<le> e + e + int 52" "e + e + int 52 \<le> 971" using e by simp_all
    have nc: "e + e + int 52 < 971 \<or> A < 2 ^ (53 + 52) - 2 ^ (52 - 1)" using e by simp
    from round_dy_near [OF a _ ee nc] obtain q t where
      r: "round_dy False A (e + e) = Fin q (e + e + int t)" "2 ^ 52 \<le> q" "q < 2 ^ 53"
        "t = 52 \<or> t = Suc 52" "abs (q * 2 ^ t - A) \<le> 2 ^ (52 - 1)"
      by auto
    have "abs (q * 2 ^ t - A) < M" using r(5) M(1) by simp
    then have "A - M < q * 2 ^ t" "q * 2 ^ t \<le> A + M" by linarith+
    then show ?thesis using r(1,2,3,4) by (intro exI [of _ q] exI [of _ t]) auto
  next
    case False
    have a: "2 ^ (52 + 53) \<le> A" "A < 2 ^ (53 + 53)" using sb(2) False by simp_all
    have ee: "- 1074 \<le> e + e + int 53" "e + e + int 53 \<le> 971" using e by simp_all
    have "A \<le> (2 ^ 53 - 1) * (2 ^ 53 - 1)"
      unfolding A_def using M by (intro mult_mono) simp_all
    then have nc: "e + e + int 53 < 971 \<or> A < 2 ^ (53 + 53) - 2 ^ (53 - 1)" by simp
    from round_dy_near [OF a _ ee nc] obtain q t where
      r: "round_dy False A (e + e) = Fin q (e + e + int t)" "2 ^ 52 \<le> q" "q < 2 ^ 53"
        "t = 53 \<or> t = Suc 53" "abs (q * 2 ^ t - A) \<le> 2 ^ (53 - 1)"
      by auto
    have "M \<noteq> 2 ^ 52"
    proof
      assume "M = 2 ^ 52"
      then have "A = 2 ^ 104" by (simp add: A_def)
      then show False using False by simp
    qed
    then have "2 ^ 52 < M" using M(1) by simp
    then have "abs (q * 2 ^ t - A) < M" using r(5) by simp
    then have "A - M < q * 2 ^ t" "q * 2 ^ t \<le> A + M" by linarith+
    then show ?thesis using r(1,2,3,4) by (intro exI [of _ q] exI [of _ t]) auto
  qed
  then obtain q t where r: "round_dy False A (e + e) = Fin q (e + e + int t)"
    and q: "2 ^ 52 \<le> q" "q < 2 ^ 53" and t: "t = 52 \<or> t = 53 \<or> t = 54"
    and Q: "A - M < q * 2 ^ t" "q * 2 ^ t \<le> A + M"
    by blast
  have e': "- 1074 \<le> e" "e \<le> 971" using e by simp_all
  have "dsqrt (Fin q (e + e + int t)) = Fin M e"
    by (rule dsqrt_near_square [OF M q t Q [unfolded A_def] e'])
  then show ?thesis unfolding prod r M_def .
qed

section \<open>Pearson correlation: symmetry, a series against itself\<close>

lemma pearson_step_swap:
  "pearson_step y x i (swap_sums s) = swap_sums (pearson_step x y i s)"
  by (simp add: pearson_step_def swap_sums_def double_mult_commute)

lemma pearson_fold_swap:
  "fold (pearson_step y x) ks (swap_sums s) = swap_sums (fold (pearson_step x y) ks s)"
  by (induction ks arbitrary: s) (simp_all add: pearson_step_swap)

lemma pearson_loop_swap: "pearson_loop y x n = swap_sums (pearson_loop x y n)"
proof -
  have "swap_sums \<lparr>sum_x = 0, sum_y = 0, sum_xx = 0, sum_yy = 0, sum_xy = 0\<rparr> =
      \<lparr>sum_x = 0, sum_y = 0, sum_xx = 0, sum_yy = 0, sum_xy = 0\<rparr>"
    by (simp add: swap_sums_def)
  then show ?thesis
    unfolding pearson_loop_def using pearson_fold_swap [of y x "[0..<nat n]"] by metis
qed

lemma pearson_of_swap: "pearson_of_sums n (swap_sums s) = pearson_of_sums n s"
proof -
  have "pearson_numerator n (swap_sums s) = pearson_numerator n s"
    by (simp add: pearson_numerator_def swap_sums_def double_mult_commute [of "sum_y s"])
  moreover have "pearson_denominator n (swap_sums s) = pearson_denominator n s"
    by (simp add: pearson_denominator_def swap_sums_def
        double_mult_commute [of "variance_term n (sum_yy s) (sum_y s)"])
  ultimately show ?thesis by (simp add: pearson_of_sums_def)
qed

lemma one_rounded: "round_dy False 36028797018963968 (- 55) = d_of_int 1"
  by (simp add: double_eval)

lemma pearson_self_fold:
  assumes "sum_y s = sum_x s" "sum_yy s = sum_xx s" "sum_xy s = sum_xx s"
  shows "sum_y (fold (pearson_step x x) ks s) = sum_x (fold (pearson_step x x) ks s) \<and>
         sum_yy (fold (pearson_step x x) ks s) = sum_xx (fold (pearson_step x x) ks s) \<and>
         sum_xy (fold (pearson_step x x) ks s) = sum_xx (fold (pearson_step x x) ks s)"
  using assms
proof (induction ks arbitrary: s)
  case Nil
  then show ?case by simp
next
  case (Cons k ks)
  have "sum_y (pearson_step x x k s) = sum_x (pearson_step x x k s)"
    "sum_yy (pearson_step x x k s) = sum_xx (pearson_step x x k s)"
    "sum_xy (pearson_step x x k s) = sum_xx (pearson_step x x k s)"
    using Cons.prems by (simp_all add: pearson_step_def)
  from Cons.IH [OF this] show ?case by simp
qed

lemma pearson_self_variance:
  "pearson_numerator n (pearson_loop x x n) = self_variance x n"
  "pearson_denominator n (pearson_loop x x n) = dsqrt (self_variance x n * self_variance x n)"
proof -
  have "sum_y (pearson_loop x x n) = sum_x (pearson_loop x x n) \<and>
        sum_yy (pearson_loop x x n) = sum_xx (pearson_loop x x n) \<and>
        sum_xy (pearson_loop x x n) = sum_xx (pearson_loop x x n)"
    unfolding pearson_loop_def by (rule pearson_self_fold) simp_all
  then show "pearson_numerator n (pearson_loop x x n) = self_variance x n"
    "pearson_denominator n (pearson_loop x x n) = dsqrt (self_variance x n * self_variance x n)"
    by (simp_all add: pearson_numerator_def pearson_denominator_def self_variance_def variance_term_def)
qed

lemma minus_one_rounded: "round_dy False (- 36028797018963968) (- 55) = d_of_int (- 1)"
  by (simp add: double_eval)

lemma ddiv_abs:
  assumes "m \<noteq> 0"
  shows "ddiv (Fin m e) (Fin (abs m) e) = d_of_int (sgn m)"
proof -
  have j: "nat (max 0 (55 + nbits (abs (abs m)) - nbits (abs m))) = 55" by simp
  have s: "sgn m * sgn (abs m) = sgn m" using assms by (simp add: sgn_if)
  have a: "abs m \<noteq> 0" using assms by simp
  have q: "(abs m * 2 ^ 55) div abs (abs m) = 36028797018963968"
    "(abs m * 2 ^ 55) mod abs (abs m) = 0"
    using a by simp_all
  have "ddiv (Fin m e) (Fin (abs m) e) = div_fin m e (abs m) e 55"
    using assms a by (simp only: ddiv.simps j if_False)
  also have "\<dots> = round_dy False (sgn m * 36028797018963968) (- 55)"
    unfolding div_fin_def div_scaled_def s q by simp
  also have "\<dots> = d_of_int (sgn m)"
  proof (cases "0 < m")
    case True
    then show ?thesis by (simp add: one_rounded)
  next
    case False
    then have "m < 0" using assms by simp
    then show ?thesis by (simp add: minus_one_rounded)
  qed
  finally show ?thesis .
qed

lemma pearson_ratio_squarable:
  assumes "squarable v"
  shows "pearson_ratio v (dsqrt (v * v)) = (if 0 < v then d_of_int 1 else d_of_int (- 1))"
    and "0 < v \<or> v < 0"
proof -
  from assms obtain m e where v: "v = Fin m e"
    and m: "2 ^ 52 \<le> abs m" "abs m < 2 ^ 53" and e: "- 563 \<le> e" "e \<le> 459"
    by (cases v) (simp_all add: squarable_def)
  have m0: "m \<noteq> 0" using m(1) by auto
  have r: "dsqrt (v * v) = Fin (abs m) e" unfolding v by (rule dsqrt_square [OF m e])
  have nz: "\<not> deq (Fin (abs m) e) 0" using m0 by (simp add: zero_double_def)
  have pos: "0 < v \<longleftrightarrow> 0 < m" unfolding v by (simp add: zero_double_def less_double_def)
  have neg: "v < 0 \<longleftrightarrow> m < 0" unfolding v using m0 by (simp add: zero_double_def less_double_def)
  show "0 < v \<or> v < 0" using pos neg m0 by auto
  have "pearson_ratio v (dsqrt (v * v)) = d_of_int (sgn m)"
    unfolding r pearson_ratio_def using nz
    by (simp only: if_False divide_double_def v ddiv_abs [OF m0])
  then show "pearson_ratio v (dsqrt (v * v)) = (if 0 < v then d_of_int 1 else d_of_int (- 1))"
    using pos m0 by (simp add: sgn_if)
qed

text \<open>
  C6. The correlation does not depend on the order of its two series (the two
  results are the same double, or both NaN). Of a series \<open>x\<close> with itself it is
  \<open>v / sqrt (v * v)\<close> for the variance term \<open>v = n * sum_xx - sum_x * sum_x\<close> as the
  loop computes it from \<open>x\<close>, unless the root is zero. So it is exactly \<open>1.0\<close> for
  every \<open>x\<close> whose \<open>v\<close> is a positive normal double with \<open>2 ^ - 511 \<le> v < 2 ^ 512\<close>,
  exactly \<open>- 1.0\<close> for every \<open>x\<close> whose \<open>v\<close> is such a double with the negative sign,
  and NaN for every \<open>x\<close> whose \<open>v\<close> is zero or NaN.
\<close>

theorem pearson_symmetry_and_self:
  "pearson_correlation x y n = pearson_correlation y x n \<and>
   pearson_correlation x x n =
     pearson_ratio (self_variance x n) (dsqrt (self_variance x n * self_variance x n)) \<and>
   (squarable (self_variance x n) \<and> 0 < self_variance x n \<longrightarrow>
      pearson_correlation x x n = d_of_int 1) \<and>
   (squarable (self_variance x n) \<and> self_variance x n < 0 \<longrightarrow>
      pearson_correlation x x n = d_of_int (- 1)) \<and>
   (deq (self_variance x n) 0 \<or> isnan (self_variance x n) \<longrightarrow>
      isnan (pearson_correlation x x n))"
proof (intro conjI impI)
  show "pearson_correlation x y n = pearson_correlation y x n"
    unfolding pearson_correlation_def pearson_loop_swap [of y x] pearson_of_swap ..
next
  show r: "pearson_correlation x x n =
     pearson_ratio (self_variance x n) (dsqrt (self_variance x n * self_variance x n))"
    by (simp add: pearson_correlation_def pearson_of_sums_def pearson_self_variance)
  {
    assume "squarable (self_variance x n) \<and> 0 < self_variance x n"
    then show "pearson_correlation x x n = d_of_int 1"
      unfolding r using pearson_ratio_squarable(1) [of "self_variance x n"] by simp
  }
  {
    assume a: "squarable (self_variance x n) \<and> self_variance x n < 0"
    have "\<not> 0 < self_variance x n"
    proof
      assume "0 < self_variance x n"
      with a have "(0::double) < 0" unfolding less_double_def by (blast intro: dless_trans)
      then show False by (simp add: less_double_def dless_irrefl)
    qed
    then show "pearson_correlation x x n = d_of_int (- 1)"
      unfolding r using a pearson_ratio_squarable(1) [of "self_variance x n"] by simp
  }
  {
    assume "deq (self_variance x n) 0 \<or> isnan (self_variance x n)"
    then show "isnan (pearson_correlation x x n)"
    proof
      assume "isnan (self_variance x n)"
      then have "self_variance x n = NaN" by (simp add: isnan_iff)
      then show ?thesis unfolding r by (simp add: pearson_ratio_def)
    next
      assume z: "deq (self_variance x n) 0"
      then obtain e where v: "self_variance x n = Fin 0 e"
        by (cases "self_variance x n") (auto simp: zero_double_def split: if_splits)
      have "dsqrt (self_variance x n * self_variance x n) = 0"
        unfolding v by (simp add: times_double_def round_dy_def zero_double_def)
      then show ?thesis unfolding r by (simp add: pearson_ratio_def zero_double_def)
    qed
  }
qed

text \<open>
  Instances: \<open>[1, 2]\<close> has the variance term 1 and the correlation \<open>1.0\<close> with itself;
  \<open>[1, 1 + 3 * 2 ^ - 52]\<close> has the variance term \<open>- 2 ^ - 50\<close> and the correlation
  \<open>- 1.0\<close>; \<open>[3, 3]\<close> has the variance term 0 and the correlation NaN.
\<close>

theorem pearson_symmetry_and_self_witness:
  "pearson_correlation [d_of_int 1, d_of_int 2] [d_of_int 5, d_of_int 3] 2 =
     pearson_correlation [d_of_int 5, d_of_int 3] [d_of_int 1, d_of_int 2] 2 \<and>
   pearson_correlation [d_of_int 1, d_of_int 2] [d_of_int 1, d_of_int 2] 2 = d_of_int 1 \<and>
   self_variance [Fin 4503599627370496 (- 52), Fin 4503599627370499 (- 52)] 2 =
     Fin (- 4503599627370496) (- 102) \<and>
   pearson_correlation [Fin 4503599627370496 (- 52), Fin 4503599627370499 (- 52)]
     [Fin 4503599627370496 (- 52), Fin 4503599627370499 (- 52)] 2 = d_of_int (- 1) \<and>
   isnan (pearson_correlation [d_of_int 3, d_of_int 3] [d_of_int 3, d_of_int 3] 2)"
proof -
  have v1: "self_variance [d_of_int 1, d_of_int 2] 2 = Fin 4503599627370496 (- 52)"
    by (simp add: self_variance_def pearson_eval double_eval upt_rec)
  have v2: "self_variance [Fin 4503599627370496 (- 52), Fin 4503599627370499 (- 52)] 2 =
      Fin (- 4503599627370496) (- 102)"
    by (simp add: self_variance_def pearson_eval double_eval upt_rec)
  have v3: "self_variance [d_of_int 3, d_of_int 3] 2 = 0"
    by (simp add: self_variance_def pearson_eval double_eval upt_rec)
  have s1: "squarable (Fin 4503599627370496 (- 52))" "0 < Fin 4503599627370496 (- 52)"
    by (simp_all add: squarable_def double_eval)
  have s2: "squarable (Fin (- 4503599627370496) (- 102))" "Fin (- 4503599627370496) (- 102) < 0"
    by (simp_all add: squarable_def double_eval)
  have s3: "deq (0::double) 0" by (simp add: zero_double_def)
  show ?thesis
    using pearson_symmetry_and_self [of "[d_of_int 1, d_of_int 2]" "[d_of_int 5, d_of_int 3]" 2]
      pearson_symmetry_and_self [of "[Fin 4503599627370496 (- 52), Fin 4503599627370499 (- 52)]"
        "[]" 2]
      pearson_symmetry_and_self [of "[d_of_int 3, d_of_int 3]" "[]" 2]
      s1 s2 s3
    unfolding v1 v2 v3 by blast
qed

text \<open>
  The two doubles \<open>1\<close> and \<open>1 + 2 ^ - 30\<close> differ, and the correlation of this series
  with itself is NaN: the variance term is computed as zero.
\<close>

theorem pearson_self_nan_counterexample:
  "Fin 4503599627370496 (- 52) \<noteq> Fin 4503599631564800 (- 52) \<and>
   \<not> deq (Fin 4503599627370496 (- 52)) (Fin 4503599631564800 (- 52)) \<and>
   pearson_correlation [Fin 4503599627370496 (- 52), Fin 4503599631564800 (- 52)]
     [Fin 4503599627370496 (- 52), Fin 4503599631564800 (- 52)] 2 = NaN"
  by (simp add: pearson_eval double_eval upt_rec)

section \<open>A constant source vector\<close>

lemma tenth_is: "d_of_int 1 / d_of_int 10 = tenth"
  by (simp add: tenth_def double_eval)

lemma constant_tenth_pearson:
  "pearson_correlation [tenth, tenth, tenth, tenth, tenth, tenth, tenth, tenth]
     [d_of_int 1, d_of_int 2, d_of_int 3, d_of_int 4, d_of_int 5, d_of_int 6, d_of_int 7, d_of_int 8] 8 =
   Fin 7862128073219129 (- 78)"
  by (simp add: tenth_def pearson_eval double_eval upt_rec)

text \<open>
  C8. The source symbol has recorded the VWAP \<open>0.1\<close> for eight minutes and a second
  symbol the VWAPs \<open>1, \<dots>, 8\<close>. The variance term of the constant source is not
  computed as zero, the correlation of the two windows is the double
  \<open>7862128073219129 * 2 ^ - 78\<close> (about \<open>2.6e-08\<close>) and not NaN, and the
  correlation worker writes a row for the source symbol.
\<close>

theorem constant_source_correlates:
  "pearson_correlation (replicate 8 tenth) (map d_of_int [1, 2, 3, 4, 5, 6, 7, 8]) 8 =
     Fin 7862128073219129 (- 78) \<and>
   correlation_row_for
     (symbols_after
        (minutes_from 1 (replicate 8 tenth) #
         minutes_from 1 (map d_of_int [1, 2, 3, 4, 5, 6, 7, 8]) # replicate 6 []))
     (8 * MS_PER_MINUTE) 0 =
   Some \<lparr>row_symbol = 0, row_minute_ms = 8 * MS_PER_MINUTE, correlated_with = 1,
         correlation = Fin 7862128073219129 (- 78), lag_timestamp_ms = 8 * MS_PER_MINUTE\<rparr>"
proof -
  define xs where "xs = [tenth, tenth, tenth, tenth, tenth, tenth, tenth, tenth]"
  define ys where "ys = [d_of_int 1, d_of_int 2, d_of_int 3, d_of_int 4, d_of_int 5, d_of_int 6,
                         d_of_int 7, d_of_int 8]"
  define src where "src = minutes_from 1 xs"
  define tgt where "tgt = minutes_from 1 ys"
  define init where "init = vwap_history_init VWAP_HISTORY_SIZE_MINUTES"
  define S where "S = symbols_after (src # tgt # replicate 6 [])"
  define best where "best = (\<lambda>j. find_best_lagged_correlation (map vwap src) (vwap_hist (S ! j))
                         MOVING_AVG_POINTS (if 0 = j then MOVING_AVG_POINTS else 0) MAX_LAG_MINUTES)"
  have rx: "replicate 8 tenth = xs" by (simp add: xs_def eval_nat_numeral)
  have ry: "map d_of_int [1, 2, 3, 4, 5, 6, 7, 8] = ys" by (simp add: ys_def)
  have p: "pearson_correlation xs ys 8 = Fin 7862128073219129 (- 78)"
    unfolding xs_def ys_def by (rule constant_tenth_pearson)
  have n: "length (src # tgt # replicate 6 []) = NUM_SYMBOLS" by (simp add: NUM_SYMBOLS_def)
  have z: "0 < NUM_SYMBOLS" and o: "1 < NUM_SYMBOLS" by (simp_all add: NUM_SYMBOLS_def)
  have h0: "vwap_hist (S ! 0) = record_minutes src init"
    using symbols_after_hist [OF n z] by (simp add: S_def init_def)
  have h1: "vwap_hist (S ! 1) = record_minutes tgt init"
    using symbols_after_hist [OF n o] by (simp add: S_def init_def)
  have hj: "vwap_hist (S ! j) = record_minutes [] init" if "j < NUM_SYMBOLS" "j \<noteq> 0" "j \<noteq> 1" for j
    using symbols_after_hist [OF n that(1)] that
    by (simp add: NUM_SYMBOLS_def nth_Cons' S_def init_def)
  have ls: "length src = 8" and lt: "length tgt = 8"
    by (simp_all add: src_def tgt_def xs_def ys_def minutes_from_def)
  have lens: "int (length src) \<le> VWAP_HISTORY_SIZE_MINUTES"
    and lent: "int (length tgt) \<le> VWAP_HISTORY_SIZE_MINUTES"
    and lene: "int (length ([]::vwap_point list)) \<le> VWAP_HISTORY_SIZE_MINUTES"
    unfolding ls lt by (simp_all add: history_eval)
  have oks: "history_ok (record_minutes src init)" and ens: "entries (record_minutes src init) = src"
    and szs: "vh_size (record_minutes src init) = 8"
    using recorded_history [OF lens] ls by (simp_all add: init_def)
  have okt: "history_ok (record_minutes tgt init)" and ent: "entries (record_minutes tgt init) = tgt"
    and szt: "vh_size (record_minutes tgt init) = 8"
    using recorded_history [OF lent] lt by (simp_all add: init_def)
  have sze: "vh_size (record_minutes [] init) = 0"
    using recorded_history(3) [OF lene] by (simp add: init_def)
  have g: "vwap_history_get_recent (vwap_hist (S ! 0)) MOVING_AVG_POINTS = Some src"
    unfolding h0 using vwap_history_get_recent_entries [OF oks, of MOVING_AVG_POINTS]
    by (simp add: szs ens MOVING_AVG_POINTS_def)
  have vs: "map vwap src = xs"
    by (simp add: src_def xs_def minutes_from_def upt_rec)
  have vt: "map vwap (candidate_window (record_minutes tgt init) 8 0) = ys"
    unfolding candidate_window_def ent szt
    by (simp add: tgt_def ys_def minutes_from_def upt_rec)
  have ce: "candidate_end (record_minutes tgt init) 8 0 = 8 * MS_PER_MINUTE"
    unfolding candidate_end_def candidate_window_def ent szt
    by (simp add: tgt_def ys_def minutes_from_def upt_rec MS_PER_MINUTE_def)
  have cc: "candidate_corr xs (record_minutes tgt init) 8 0 = Fin 7862128073219129 (- 78)"
    unfolding candidate_corr_def vt by (rule p)
  have b1: "best 1 = (Fin 7862128073219129 (- 78), 8 * MS_PER_MINUTE)"
    unfolding best_def h1 vs
    using find_best_single [OF okt, of 8 0 60 xs]
    by (simp add: szt cc ce MOVING_AVG_POINTS_def MAX_LAG_MINUTES_def)
  have k: "\<not> isnan (fst (best 1))" unfolding b1 by simp
  have others: "isnan (fst (best j))" if "j < NUM_SYMBOLS" "j \<noteq> 1" for j
  proof (cases "j = 0")
    case True
    have "best 0 = (NaN, 0)"
      unfolding best_def h0 by (intro find_best_short) (simp add: szs MOVING_AVG_POINTS_def)
    then show ?thesis using True by simp
  next
    case False
    have "best j = (NaN, 0)"
      unfolding best_def hj [OF that(1) False that(2)]
      by (intro find_best_short) (simp add: sze MOVING_AVG_POINTS_def)
    then show ?thesis by simp
  qed
  have "correlation_row_for S (8 * MS_PER_MINUTE) 0 =
      Some \<lparr>row_symbol = 0, row_minute_ms = 8 * MS_PER_MINUTE, correlated_with = int 1,
            correlation = fst (best 1), lag_timestamp_ms = snd (best 1)\<rparr>"
    unfolding best_def
    by (rule row_single_target [OF g o k [unfolded best_def] others [unfolded best_def]])
  then have "correlation_row_for S (8 * MS_PER_MINUTE) 0 =
      Some \<lparr>row_symbol = 0, row_minute_ms = 8 * MS_PER_MINUTE, correlated_with = 1,
            correlation = Fin 7862128073219129 (- 78), lag_timestamp_ms = 8 * MS_PER_MINUTE\<rparr>"
    unfolding b1 by simp
  then show ?thesis
    unfolding rx ry using p by (simp add: S_def src_def tgt_def)
qed

section \<open>The parser\<close>

text \<open>
  C9. When the first trade object of the message yields an \<open>instId\<close> of the symbol
  table, and \<open>px\<close> and \<open>sz\<close> values that \<open>strtod\<close> converts completely, without
  error, to numbers that are not \<open>\<le> 0\<close>, then a \<open>ts\<close> field that cannot be extracted, or
  whose value \<open>strtoll\<close> does not accept as a positive integer, does not make the
  parse fail: it returns the populated message, with \<open>exchange_ts_ms\<close> the value of
  \<open>now_ms\<close>.
\<close>

theorem parse_okx_trade_timestamp_fallback:
  assumes "trade_obj_start json = Some trade_obj"
    and "json_extract_string trade_obj (quoted ''instId'') 32 = Some (inst_id, c1)"
    and "0 \<le> symbol_search inst_id SYMBOLS 0"
    and "json_extract_string c1 (quoted ''px'') 32 = Some (price_str, c2)"
    and "\<not> rejected (strtod price_str)"
    and "json_extract_string c2 (quoted ''sz'') 32 = Some (size_str, c3)"
    and "\<not> rejected (strtod size_str)"
    and "json_extract_string c3 (quoted ''ts'') 32 = None \<or>
         (\<exists>ts_str c4. json_extract_string c3 (quoted ''ts'') 32 = Some (ts_str, c4) \<and>
                      rejected (strtoll ts_str))"
  shows "parse_okx_trade strtod strtoll now json msg =
           Some (msg\<lparr>symbol_index := symbol_search inst_id SYMBOLS 0,
                      exchange_ts_ms := now,
                      msg_price := conv_value (strtod price_str),
                      msg_size := conv_value (strtod size_str)\<rparr>)"
proof -
  have ts: "trade_timestamp strtoll now c3 = now"
    using assms(8) by (auto simp: trade_timestamp_def)
  have "parse_size strtod strtoll now (symbol_search inst_id SYMBOLS 0)
          (conv_value (strtod price_str)) c2 msg =
        Some (msg\<lparr>symbol_index := symbol_search inst_id SYMBOLS 0,
                      exchange_ts_ms := now,
                      msg_price := conv_value (strtod price_str),
                      msg_size := conv_value (strtod size_str)\<rparr>)"
    using assms(6,7) by (simp add: parse_size_def ts)
  then have "parse_price strtod strtoll now (symbol_search inst_id SYMBOLS 0) c1 msg =
        Some (msg\<lparr>symbol_index := symbol_search inst_id SYMBOLS 0,
                      exchange_ts_ms := now,
                      msg_price := conv_value (strtod price_str),
                      msg_size := conv_value (strtod size_str)\<rparr>)"
    using assms(4,5) by (simp add: parse_price_def)
  then show ?thesis
    using assms(1,2,3) by (simp add: parse_okx_trade_def)
qed

lemmas parser_eval =
  trade_obj_start_def json_extract_string_def quoted_value_def quoted_def DQUOTE_def
  is_blank_def example_trade_def SYMBOLS_def

lemma example_object:
  "trade_obj_start (example_trade extra) =
     Some (''{'' @ quoted ''instId'' @ '':'' @ quoted ''ETH-USDT'' @ '','' @ quoted ''px'' @ '': '' @
           quoted ''27340'' @ '','' @ quoted ''sz'' @ '':'' @ quoted ''2'' @ extra @ ''}]}'')"
  by (simp add: parser_eval)

lemma example_inst_id:
  "json_extract_string
     (''{'' @ quoted ''instId'' @ '':'' @ quoted ''ETH-USDT'' @ '','' @ quoted ''px'' @ '': '' @
      quoted ''27340'' @ '','' @ quoted ''sz'' @ '':'' @ quoted ''2'' @ extra @ ''}]}'')
     (quoted ''instId'') 32 =
   Some (''ETH-USDT'',
         '','' @ quoted ''px'' @ '': '' @ quoted ''27340'' @ '','' @ quoted ''sz'' @ '':'' @
         quoted ''2'' @ extra @ ''}]}'')"
  by (simp add: parser_eval)

lemma example_px:
  "json_extract_string
     ('','' @ quoted ''px'' @ '': '' @ quoted ''27340'' @ '','' @ quoted ''sz'' @ '':'' @
      quoted ''2'' @ extra @ ''}]}'')
     (quoted ''px'') 32 =
   Some (''27340'', '','' @ quoted ''sz'' @ '':'' @ quoted ''2'' @ extra @ ''}]}'')"
  by (simp add: parser_eval)

lemma example_sz:
  "json_extract_string ('','' @ quoted ''sz'' @ '':'' @ quoted ''2'' @ extra @ ''}]}'')
     (quoted ''sz'') 32 =
   Some (''2'', extra @ ''}]}'')"
  by (simp add: parser_eval)

lemma example_no_ts:
  "json_extract_string (('','' @ quoted ''side'' @ '':'' @ quoted ''sell'') @ ''}]}'')
     (quoted ''ts'') 32 = None"
  by (simp add: parser_eval)

lemma example_bad_ts:
  "json_extract_string (('','' @ quoted ''ts'' @ '':'' @ quoted ''soon'') @ ''}]}'')
     (quoted ''ts'') 32 = Some (''soon'', ''}]}'')"
  by (simp add: parser_eval)

lemma example_conversions:
  "\<not> rejected (example_strtod ''27340'')" "\<not> rejected (example_strtod ''2'')"
  "rejected (example_strtoll ''soon'')"
  "conv_value (example_strtod ''27340'') = d_of_int 27340"
  "conv_value (example_strtod ''2'') = d_of_int 2"
  by (simp_all add: rejected_def example_strtod_def example_strtoll_def double_eval)

lemma example_symbol: "symbol_search ''ETH-USDT'' SYMBOLS 0 = 2"
  by (simp add: SYMBOLS_def)

theorem parse_okx_trade_timestamp_fallback_witness:
  "parse_okx_trade example_strtod example_strtoll 1700000000000
     (example_trade ('','' @ quoted ''side'' @ '':'' @ quoted ''sell'')) zero_message =
   Some (zero_message\<lparr>symbol_index := 2, exchange_ts_ms := 1700000000000,
                       msg_price := d_of_int 27340, msg_size := d_of_int 2\<rparr>) \<and>
   parse_okx_trade example_strtod example_strtoll 1700000000000
     (example_trade ('','' @ quoted ''ts'' @ '':'' @ quoted ''soon'')) zero_message =
   Some (zero_message\<lparr>symbol_index := 2, exchange_ts_ms := 1700000000000,
                       msg_price := d_of_int 27340, msg_size := d_of_int 2\<rparr>)"
proof -
  have s: "0 \<le> symbol_search ''ETH-USDT'' SYMBOLS 0" by (simp add: example_symbol)
  have bad: "json_extract_string (('','' @ quoted ''ts'' @ '':'' @ quoted ''soon'') @ ''}]}'')
       (quoted ''ts'') 32 = None \<or>
     (\<exists>ts_str c4. json_extract_string (('','' @ quoted ''ts'' @ '':'' @ quoted ''soon'') @ ''}]}'')
         (quoted ''ts'') 32 = Some (ts_str, c4) \<and> rejected (example_strtoll ts_str))"
    using example_bad_ts example_conversions(3) by blast
  have missing: "json_extract_string (('','' @ quoted ''side'' @ '':'' @ quoted ''sell'') @ ''}]}'')
       (quoted ''ts'') 32 = None \<or>
     (\<exists>ts_str c4. json_extract_string (('','' @ quoted ''side'' @ '':'' @ quoted ''sell'') @ ''}]}'')
         (quoted ''ts'') 32 = Some (ts_str, c4) \<and> rejected (example_strtoll ts_str))"
    using example_no_ts by blast
  note a = parse_okx_trade_timestamp_fallback [OF example_object example_inst_id s example_px
      example_conversions(1) example_sz example_conversions(2) missing,
      of 1700000000000 zero_message]
  note b = parse_okx_trade_timestamp_fallback [OF example_object example_inst_id s example_px
      example_conversions(1) example_sz example_conversions(2) bad,
      of 1700000000000 zero_message]
  show ?thesis
    using a b unfolding example_symbol example_conversions(4,5) by blast
qed

end
